theory Spec2Isabelle
  imports Main "HOL-Library.Word" "HOL-Library.Sublist"
begin

unbundle bit_operations_syntax

section \<open>Machine types of the Go sources\<close>

type_synonym byte = "8 word"
type_synonym uint16 = "16 word"
type_synonym uint32 = "32 word"
type_synonym uint64 = "64 word"

section \<open>Outcomes of Go calls\<close>

text \<open>
  A Go \<^verbatim>\<open>error\<close> value is one of the repository's error structs or a plain
  \<^verbatim>\<open>errors.New\<close>; \<^verbatim>\<open>nil\<close> is \<open>None\<close> of \<open>error option\<close>. The two errors
  whose text is formatted from a number, \<^verbatim>\<open>"deformed unicode: %d"\<close> and
  \<^verbatim>\<open>"deformed utf8: %d"\<close>, carry that number instead. A call either returns
  (\<open>Done\<close>) or panics at run time (\<open>Panic\<close>).
\<close>

datatype error =
  ProtocolError string
| HandshakeError string
| ServerError string
| PlainError string
| DeformedUnicode uint32
| DeformedUtf8 "byte list"

datatype panic = SliceBoundsOutOfRange | IndexOutOfRange

datatype 'a outcome = Done 'a | Panic panic

section \<open>Byte strings\<close>

text \<open>
  A \<^verbatim>\<open>[]byte\<close> of header text and a Go \<^verbatim>\<open>string\<close> are both lists of 8-bit
  characters. \<open>LF\<close> and \<open>CR\<close> are the bytes \<^verbatim>\<open>'\n'\<close> and \<^verbatim>\<open>'\r'\<close>.
\<close>

abbreviation LF :: char where "LF \<equiv> CHR 0x0A"
abbreviation CR :: char where "CR \<equiv> CHR 0x0D"

text \<open>\<^verbatim>\<open>bytes.IndexByte\<close>: the index of the first instance of \<open>c\<close>, or \<open>-1\<close>.\<close>

fun IndexByte :: "string \<Rightarrow> char \<Rightarrow> int" where
  "IndexByte [] c = - 1"
| "IndexByte (x # xs) c =
     (if x = c then 0 else (let i = IndexByte xs c in if i < 0 then - 1 else i + 1))"

text \<open>
  The slice expression \<^verbatim>\<open>s[lo:hi]\<close> on a slice whose capacity is its length: a run-time
  panic unless \<open>0 \<le> lo \<le> hi \<le> len(s)\<close>.
\<close>

definition slice :: "'a list \<Rightarrow> int \<Rightarrow> int \<Rightarrow> 'a list outcome" where
  "slice s lo hi =
     (if 0 \<le> lo \<and> lo \<le> hi \<and> hi \<le> int (length s)
      then Done (take (nat (hi - lo)) (drop (nat lo) s))
      else Panic SliceBoundsOutOfRange)"

text \<open>
  \<^verbatim>\<open>(*bytes.Buffer).ReadBytes(delim)\<close> on a buffer holding \<open>br\<close>: the data up to and
  including the first \<open>delim\<close>, or everything that is left together with \<^verbatim>\<open>io.EOF\<close>
  (the flag) when there is no \<open>delim\<close>; and the buffer that remains.
\<close>

definition ReadBytes :: "string \<Rightarrow> char \<Rightarrow> string \<times> bool \<times> string" where
  "ReadBytes br delim =
     (let i = IndexByte br delim
      in if i < 0 then (br, True, [])
         else (take (nat (i + 1)) br, False, drop (nat (i + 1)) br))"

section \<open>Header (header.go)\<close>

type_synonym Header = "string \<rightharpoonup> string list"

text \<open>
  \<^verbatim>\<open>Header.FromBytes\<close>. The receiver is a map and is updated in place; the model returns
  the updated map with the error. The loop of the source is the recursion, on the buffer
  that \<^verbatim>\<open>ReadBytes\<close> leaves. \<^verbatim>\<open>h[key]\<close> of an absent key is the nil slice.
\<close>

function FromBytes :: "Header \<Rightarrow> string \<Rightarrow> bool \<Rightarrow> (Header \<times> error option) outcome" where
  "FromBytes h br isCRLF =
     (case ReadBytes br LF of
        (line, eof, br') \<Rightarrow>
          if eof then Done (h, None)
          else
            let kvSep = IndexByte line (CHR '':'')
            in if kvSep < 0 then Done (h, Some (PlainError (''deformed header: '' @ line)))
               else
                 (case (if isCRLF then slice line (kvSep + 2) (int (length line) - 2)
                        else slice line (kvSep + 2) (int (length line) - 1)) of
                    Panic e \<Rightarrow> Panic e
                  | Done val \<Rightarrow>
                      (case slice line 0 kvSep of
                         Panic e \<Rightarrow> Panic e
                       | Done key \<Rightarrow>
                           FromBytes
                             (h(key \<mapsto> (case h key of None \<Rightarrow> [] | Some vs \<Rightarrow> vs) @ [val]))
                             br' isCRLF)))"
  by pat_completeness auto
termination
proof (relation "measure (\<lambda>(h, br, isCRLF). length br)", goal_cases)
  case 1
  show ?case by simp
next
  case prems: (2 h br isCRLF)
  have "\<not> IndexByte br LF < 0 \<Longrightarrow> length br - nat (IndexByte br LF + 1) < length br"
    by (cases br) auto
  with prems(1-4) show ?case
    by (auto simp: ReadBytes_def Let_def split: if_splits)
qed

definition Get :: "Header \<Rightarrow> string \<Rightarrow> string list" where
  "Get h key = (case h key of None \<Rightarrow> [] | Some vs \<Rightarrow> vs)"

definition GetOne :: "Header \<Rightarrow> string \<Rightarrow> string outcome" where
  "GetOne h key =
     (case Get h key of [] \<Rightarrow> Panic IndexOutOfRange | v # _ \<Rightarrow> Done v)"

definition HasKey :: "Header \<Rightarrow> string \<Rightarrow> bool" where
  "HasKey h key = (h key \<noteq> None)"

definition HasKeyAndValEqual :: "Header \<Rightarrow> string \<Rightarrow> string \<Rightarrow> bool outcome" where
  "HasKeyAndValEqual h key val =
     (case h key of
        None \<Rightarrow> Done False
      | Some v \<Rightarrow> (case v of [] \<Rightarrow> Panic IndexOutOfRange | v0 # _ \<Rightarrow> Done (v0 = val)))"

text \<open>\<^verbatim>\<open>strings.Contains(s, substr)\<close> is \<^term>\<open>sublist substr s\<close>.\<close>

definition HasKeyAndValContains :: "Header \<Rightarrow> string \<Rightarrow> string \<Rightarrow> bool outcome" where
  "HasKeyAndValContains h key val =
     (case h key of
        None \<Rightarrow> Done False
      | Some v \<Rightarrow> (case v of [] \<Rightarrow> Panic IndexOutOfRange | v0 # _ \<Rightarrow> Done (sublist val v0)))"

text \<open>
  Every key of the header has at least one value. \<^verbatim>\<open>FromBytes\<close>, the only writer of a
  header in the repository, appends a value whenever it creates a key.
\<close>

definition Header_wf :: "Header \<Rightarrow> bool" where
  "Header_wf h \<longleftrightarrow> (\<forall>k. h k \<noteq> Some [])"

declare FromBytes.simps [simp del]

section \<open>Default handshake check (conn.go)\<close>

text \<open>
  Of \<^verbatim>\<open>*url.URL\<close> only \<^verbatim>\<open>Path\<close> is used. \<^verbatim>\<open>DefaultOnConnOpenRouter\<close> is a map from
  the request path to a handler; the handlers themselves play no part in the check.
\<close>

record HandshakeRequest =
  Method :: string
  RequestURI :: string
  RequestURL_Path :: string
  Proto :: string
  ProtoVer :: string
  Header :: Header

type_synonym 'h DefaultOnConnOpenRouter = "string \<rightharpoonup> 'h"

definition HasHandler :: "'h DefaultOnConnOpenRouter \<Rightarrow> string \<Rightarrow> bool" where
  "HasHandler r reqPath = (r reqPath \<noteq> None)"

definition StatusBadRequest :: int where "StatusBadRequest = 400"
definition StatusNotFound :: int where "StatusNotFound = 404"

definition ErrNotSupportedVersion :: error where
  "ErrNotSupportedVersion = ProtocolError ''not supported version''"

text \<open>Sequencing of calls that may panic.\<close>

definition bind_outcome :: "'a outcome \<Rightarrow> ('a \<Rightarrow> 'b outcome) \<Rightarrow> 'b outcome" where
  "bind_outcome m f = (case m of Panic e \<Rightarrow> Panic e | Done x \<Rightarrow> f x)"

text \<open>
  \<^verbatim>\<open>DefaultServerHandshakeCheck(hsReq, conn)\<close>; \<open>router\<close> is
  \<^verbatim>\<open>conn.Server.onConnOpenRouter\<close>, the only part of \<^verbatim>\<open>conn\<close> that is read.
  \<open>CHR 0x27\<close> is the quote that closes a header name at the end of a message.
\<close>

definition DefaultServerHandshakeCheck ::
  "HandshakeRequest \<Rightarrow> 'h DefaultOnConnOpenRouter \<Rightarrow> (int \<times> error option) outcome" where
  "DefaultServerHandshakeCheck hsReq router =
     (let header = Header hsReq in
      if ProtoVer hsReq \<noteq> ''1.1''
      then Done (StatusBadRequest, Some (ProtocolError ''invalid http proto ver''))
      else if \<not> HasKey header ''Host''
      then Done (StatusBadRequest, Some (ProtocolError (''missing header 'Host'' @ [CHR 0x27])))
      else bind_outcome (HasKeyAndValContains header ''Connection'' ''Upgrade'') (\<lambda>b1.
      if \<not> b1
      then Done (StatusBadRequest, Some (ProtocolError (''missing or invalid header 'Connection'' @ [CHR 0x27])))
      else bind_outcome (HasKeyAndValEqual header ''Upgrade'' ''websocket'') (\<lambda>b2.
      if \<not> b2
      then Done (StatusBadRequest, Some (ProtocolError (''missing or invalid header 'Upgrade'' @ [CHR 0x27])))
      else bind_outcome (HasKeyAndValEqual header ''Sec-WebSocket-Version'' ''13'') (\<lambda>b3.
      if \<not> b3
      then Done (StatusBadRequest,
                 Some (ProtocolError (''missing or invalid header 'Sec-WebSocket-Version'' @ [CHR 0x27])))
      else if \<not> HasKey header ''Sec-WebSocket-Version''
      then Done (StatusBadRequest, Some (ProtocolError (''missing header 'Sec-WebSocket-Version'' @ [CHR 0x27])))
      else bind_outcome (GetOne header ''Sec-WebSocket-Version'') (\<lambda>v.
      if v \<noteq> ''13''
      then Done (StatusBadRequest, Some ErrNotSupportedVersion)
      else if \<not> HasKey header ''Sec-WebSocket-Key''
      then Done (StatusBadRequest, Some (ProtocolError ''missing header 'Sec-WebSocket-Key''))
      else if \<not> HasHandler router (RequestURL_Path hsReq)
      then Done (StatusNotFound,
                 Some (ProtocolError (''service not found for: '' @ RequestURL_Path hsReq)))
      else Done (0, None))))))"

text \<open>
  The rules of the specification, in its words: the first value of a key, and rules 1 to 6
  of the validation phase.
\<close>

definition first_value :: "Header \<Rightarrow> string \<Rightarrow> string option" where
  "first_value h key = (case h key of Some (v # _) \<Rightarrow> Some v | _ \<Rightarrow> None)"

definition spec_rules_1_to_6 :: "HandshakeRequest \<Rightarrow> bool" where
  "spec_rules_1_to_6 hsReq \<longleftrightarrow>
     ProtoVer hsReq = ''1.1'' \<and>
     Header hsReq ''Host'' \<noteq> None \<and>
     (case first_value (Header hsReq) ''Connection'' of
        None \<Rightarrow> False | Some v \<Rightarrow> sublist ''Upgrade'' v) \<and>
     first_value (Header hsReq) ''Upgrade'' = Some ''websocket'' \<and>
     first_value (Header hsReq) ''Sec-WebSocket-Version'' = Some ''13'' \<and>
     Header hsReq ''Sec-WebSocket-Key'' \<noteq> None"

text \<open>Three requests: a complete one, one without the version header, one for an unknown path.\<close>

definition request_ok :: HandshakeRequest where
  "request_ok =
     \<lparr>Method = ''GET'', RequestURI = ''/'', RequestURL_Path = ''/'', Proto = ''HTTP'',
      ProtoVer = ''1.1'',
      Header = [''Host'' \<mapsto> [''example.com''],
                ''Connection'' \<mapsto> [''keep-alive, Upgrade''],
                ''Upgrade'' \<mapsto> [''websocket''],
                ''Sec-WebSocket-Version'' \<mapsto> [''13''],
                ''Sec-WebSocket-Key'' \<mapsto> [''dGhlIHNhbXBsZSBub25jZQ=='']]\<rparr>"

definition request_no_version :: HandshakeRequest where
  "request_no_version =
     request_ok\<lparr>Header := (Header request_ok)(''Sec-WebSocket-Version'' := None)\<rparr>"

definition request_other_path :: HandshakeRequest where
  "request_other_path = request_ok\<lparr>RequestURL_Path := ''/nowhere''\<rparr>"

definition router_root :: "unit DefaultOnConnOpenRouter" where
  "router_root = [''/'' \<mapsto> ()]"

section \<open>UTF-8 conversions and validation\<close>

text \<open>
  \<^verbatim>\<open>byte(x)\<close> and \<^verbatim>\<open>uint32(b)\<close> are \<^const>\<open>ucast\<close>, \<^verbatim>\<open>x >> n\<close> is
  \<^const>\<open>drop_bit\<close>, \<^verbatim>\<open>x << n\<close> is \<^const>\<open>push_bit\<close>. In Go \<^verbatim>\<open>>>\<close>, \<^verbatim>\<open><<\<close> and
  \<^verbatim>\<open>&\<close> bind tighter than \<^verbatim>\<open>|\<close>.
\<close>

definition Unicode2utf8 :: "uint32 \<Rightarrow> error + byte list" where
  "Unicode2utf8 u =
     (if u \<le> 0x7F then Inr [ucast u]
      else if u \<ge> 0x80 \<and> u \<le> 0x7FF then
        Inr [ucast (drop_bit 6 u OR 0xC0),
             ucast ((u AND 0x3F) OR 0x80)]
      else if u \<ge> 0x800 \<and> u \<le> 0xFFFF then
        Inr [ucast (drop_bit 12 u OR 0xE0),
             ucast (drop_bit 6 (u AND 0xFC0) OR 0x80),
             ucast ((u AND 0x3F) OR 0x80)]
      else if u \<ge> 0x10000 \<and> u \<le> 0x10FFFF then
        Inr [ucast (drop_bit 18 u OR 0xF0),
             ucast (drop_bit 12 (u AND 0x3F000) OR 0x80),
             ucast (drop_bit 6 (u AND 0xFC0) OR 0x80),
             ucast ((u AND 0x3F) OR 0x80)]
      else Inl (DeformedUnicode u))"

text \<open>The indexed reads \<^verbatim>\<open>u8[1]\<close>, \<^verbatim>\<open>u8[2]\<close>, \<^verbatim>\<open>u8[3]\<close> are guarded by the length test.\<close>

definition Utf82unicode :: "byte list \<Rightarrow> error + uint32" where
  "Utf82unicode u8 =
     (let u8l = length u8 in
      if u8l = 0 then Inl (PlainError ''empty utf8'')
      else
        let b1 = u8 ! 0 in
        if b1 \<le> 0x7F then Inr (ucast b1)
        else if drop_bit 5 b1 = 0x6 \<and> u8l = 2 then
          Inr (push_bit 6 (ucast (b1 AND 0x1F)) OR
               ucast (u8 ! 1 AND 0x3F))
        else if drop_bit 4 b1 = 0xE \<and> u8l = 3 then
          Inr (push_bit 12 (ucast (b1 AND 0xF)) OR
               push_bit 6 (ucast (u8 ! 1 AND 0x3F)) OR
               ucast (u8 ! 2 AND 0x3F))
        else if drop_bit 3 b1 = 0x1E \<and> u8l = 4 then
          Inr (push_bit 18 (ucast (b1 AND 0x7)) OR
               push_bit 12 (ucast (u8 ! 1 AND 0x3F)) OR
               push_bit 6 (ucast (u8 ! 2 AND 0x3F)) OR
               ucast (u8 ! 3 AND 0x3F))
        else Inl (DeformedUtf8 u8))"

text \<open>
  \<^verbatim>\<open>IsIntactUtf8\<close>: the loop over the index \<open>i\<close> is the recursion. Every branch that
  continues has checked that the bytes it skips exist, so \<open>i\<close> never passes the length, and
  the loop is left at \<open>i = u8l\<close> only. Each \<^verbatim>\<open>i += k\<close> of a case is followed by the
  \<^verbatim>\<open>i++\<close> that ends the loop body. The conjunctions of the source evaluate left to right
  and stop at the first false one, so no read is out of range.
\<close>

function IsIntactUtf8_from :: "byte list \<Rightarrow> nat \<Rightarrow> bool" where
  "IsIntactUtf8_from u8 i =
     (let u8l = length u8 in
      if u8l \<le> i then i = u8l
      else
        let b1 = u8 ! i in
        if b1 \<le> 0x7F then IsIntactUtf8_from u8 (i + 1)
        else if drop_bit 5 b1 = 0x6 then
          (if u8l - i \<ge> 2 \<and>
              u8 ! (i + 1) AND 0xC0 = 0x80 \<and>
              (u8 ! i > 0xC0 \<or> u8 ! (i + 1) > 0x80)
           then IsIntactUtf8_from u8 (i + 1 + 1)
           else False)
        else if drop_bit 4 b1 = 0xE then
          (if u8l - i \<ge> 3 then
             let tu :: uint32 =
                   push_bit 12 (ucast (b1 AND 0xF)) OR
                   push_bit 6 (ucast (u8 ! (i + 1) AND 0x3F)) OR
                   ucast (u8 ! (i + 2) AND 0x3F)
             in if tu \<ge> 0x800 \<and> tu \<le> 0xFFFF \<and> \<not> (tu \<ge> 0xD800 \<and> tu \<le> 0xDFFF)
                then IsIntactUtf8_from u8 (i + 2 + 1)
                else False
           else False)
        else if drop_bit 3 b1 = 0x1E then
          (if u8l - i \<ge> 4 \<and>
              u8 ! i AND 0x7 \<le> 0x4 \<and>
              u8 ! (i + 1) AND 0xC0 = 0x80 \<and> u8 ! (i + 1) AND 0x3F \<le> 0xF \<and>
              u8 ! (i + 2) AND 0xC0 = 0x80 \<and>
              u8 ! (i + 3) AND 0xC0 = 0x80
           then IsIntactUtf8_from u8 (i + 3 + 1)
           else False)
        else False)"
  by pat_completeness auto
termination
  by (relation "measure (\<lambda>(u8, i). length u8 - i)") auto

declare IsIntactUtf8_from.simps [simp del]

definition IsIntactUtf8 :: "byte list \<Rightarrow> bool" where
  "IsIntactUtf8 u8 = IsIntactUtf8_from u8 0"

text \<open>
  The forms of section 4.3 of the specification, in its words, for one encoding given as
  the list of its bytes. \<open>cont\<close>: a continuation byte begins \<^verbatim>\<open>10xxxxxx\<close>.
  \<open>scalar3\<close>: the scalar that a 3-byte form decodes to.
\<close>

definition cont :: "byte \<Rightarrow> bool" where
  "cont b \<longleftrightarrow> b AND 0xC0 = 0x80"

definition scalar3 :: "byte \<Rightarrow> byte \<Rightarrow> byte \<Rightarrow> uint32" where
  "scalar3 b1 b2 b3 =
     push_bit 12 (ucast (b1 AND 0xF)) OR push_bit 6 (ucast (b2 AND 0x3F)) OR ucast (b3 AND 0x3F)"

definition scalar3_ok :: "uint32 \<Rightarrow> bool" where
  "scalar3_ok s \<longleftrightarrow> 0x800 \<le> s \<and> s \<le> 0xFFFF \<and> \<not> (0xD800 \<le> s \<and> s \<le> 0xDFFF)"

fun utf8_form_1 :: "byte list \<Rightarrow> bool" where
  "utf8_form_1 [b1] = (b1 \<le> 0x7F)"
| "utf8_form_1 _ = False"

fun utf8_form_2 :: "byte list \<Rightarrow> bool" where
  "utf8_form_2 [b1, b2] = (drop_bit 5 b1 = 0x6 \<and> cont b2 \<and> \<not> (b1 = 0xC0 \<and> b2 = 0x80))"
| "utf8_form_2 _ = False"

fun utf8_form_3 :: "byte list \<Rightarrow> bool" where
  "utf8_form_3 [b1, b2, b3] =
     (drop_bit 4 b1 = 0xE \<and> cont b2 \<and> cont b3 \<and> scalar3_ok (scalar3 b1 b2 b3))"
| "utf8_form_3 _ = False"

fun utf8_form_4 :: "byte list \<Rightarrow> bool" where
  "utf8_form_4 [b1, b2, b3, b4] =
     (drop_bit 3 b1 = 0x1E \<and> b1 AND 0x7 \<le> 0x4 \<and> cont b2 \<and> cont b3 \<and> cont b4)"
| "utf8_form_4 _ = False"

text \<open>A byte sequence is valid under section 4.3 when it is a concatenation of such forms.\<close>

definition spec_valid_encoding :: "byte list \<Rightarrow> bool" where
  "spec_valid_encoding e \<longleftrightarrow> utf8_form_1 e \<or> utf8_form_2 e \<or> utf8_form_3 e \<or> utf8_form_4 e"

definition spec_valid_utf8 :: "byte list \<Rightarrow> bool" where
  "spec_valid_utf8 b \<longleftrightarrow> (\<exists>es. b = concat es \<and> list_all spec_valid_encoding es)"

text \<open>
  Two variants used to bracket what the validator does. The narrow one asks, of a 4-byte
  form, that the payload of its second byte is at most \<^verbatim>\<open>0x0F\<close>. The wide one does not
  ask that the second and third byte of a 3-byte group are continuation bytes.
\<close>

fun utf8_form_4_low :: "byte list \<Rightarrow> bool" where
  "utf8_form_4_low [b1, b2, b3, b4] = (utf8_form_4 [b1, b2, b3, b4] \<and> b2 AND 0x3F \<le> 0xF)"
| "utf8_form_4_low _ = False"

fun utf8_group_3 :: "byte list \<Rightarrow> bool" where
  "utf8_group_3 [b1, b2, b3] = (drop_bit 4 b1 = 0xE \<and> scalar3_ok (scalar3 b1 b2 b3))"
| "utf8_group_3 _ = False"

definition narrow_encoding :: "byte list \<Rightarrow> bool" where
  "narrow_encoding e \<longleftrightarrow> utf8_form_1 e \<or> utf8_form_2 e \<or> utf8_form_3 e \<or> utf8_form_4_low e"

definition wide_encoding :: "byte list \<Rightarrow> bool" where
  "wide_encoding e \<longleftrightarrow> utf8_form_1 e \<or> utf8_form_2 e \<or> utf8_group_3 e \<or> utf8_form_4 e"

section \<open>Readers\<close>

text \<open>
  The \<^verbatim>\<open>io.Reader\<close> that the frame decoder reads from is a stream that hands out its
  bytes in chunks: one \<^verbatim>\<open>Read(buf)\<close> takes at most \<^verbatim>\<open>len(buf)\<close> bytes, and only from
  the chunk at the front (a short read when that chunk is smaller than the buffer, as with
  \<^verbatim>\<open>bufio.Reader\<close> over a connection); what it does not take stays at the front. When no
  chunk is left, \<^verbatim>\<open>Read\<close> returns \<^verbatim>\<open>0, io.EOF\<close>. The result is the bytes read (their
  number is the \<^verbatim>\<open>i\<close> of the source), whether \<^verbatim>\<open>err != nil\<close>, and the reader after
  the call. A reader over a byte slice (\<^verbatim>\<open>bytes.NewReader(bs)\<close>) has one chunk.
\<close>

type_synonym reader = "byte list list"

fun Read :: "reader \<Rightarrow> nat \<Rightarrow> byte list \<times> bool \<times> reader" where
  "Read [] k = ([], True, [])"
| "Read (c # cs) k = (take k c, False, if length c \<le> k then cs else drop k c # cs)"

definition bytes_reader :: "byte list \<Rightarrow> reader" where
  "bytes_reader bs = (if bs = [] then [] else [bs])"

text \<open>The bytes a reader still holds.\<close>

definition remaining :: "reader \<Rightarrow> byte list" where
  "remaining r = concat r"

text \<open>
  \<^verbatim>\<open>ReadBytesAsMath(r, size)\<close>: the loop is the recursion; \<open>sz\<close> is \<^verbatim>\<open>size\<close>, \<open>n\<close> and
  \<open>byts\<close> are the loop's variables, the buffer has 512 bytes. The result is the reader after the call and
  the bytes or the error.
\<close>

function ReadBytesAsMath_loop ::
  "reader \<Rightarrow> uint64 \<Rightarrow> uint64 \<Rightarrow> byte list \<Rightarrow> reader \<times> (error + byte list)" where
  "ReadBytesAsMath_loop r sz n byts =
     (case Read r 512 of
        (buf, err, r') \<Rightarrow>
          let i = length buf in
          if i > 0 then
            (let n' = n + of_nat i; byts' = byts @ buf
             in if n' = sz then (r', Inr byts')
                else if err then (r', Inl (PlainError ''buf not enough''))
                else ReadBytesAsMath_loop r' sz n' byts')
          else if err then (r', Inl (PlainError ''buf not enough''))
          else ReadBytesAsMath_loop r' sz n byts)"
  by pat_completeness auto
termination
proof (relation "measure (\<lambda>(r, sz, n, byts). length (concat r) + length r)", goal_cases)
  case 1
  show ?case by simp
next
  case prems: (2 r)
  then show ?case by (cases r) (auto split: if_splits)
next
  case prems: (3 r)
  then show ?case by (cases r) (auto split: if_splits)
qed

declare ReadBytesAsMath_loop.simps [simp del]

definition ReadBytesAsMath :: "reader \<Rightarrow> uint64 \<Rightarrow> reader \<times> (error + byte list)" where
  "ReadBytesAsMath r sz = ReadBytesAsMath_loop r sz 0 []"

section \<open>Frames (frame codec)\<close>

record Frame =
  FIN :: byte
  RSV1 :: byte
  RSV2 :: byte
  RSV3 :: byte
  Opcode :: byte
  MASK :: byte
  PayloadLen :: uint64
  MaskingKey :: uint32
  PayloadData :: "byte list"

text \<open>The zero value \<^verbatim>\<open>&Frame{}\<close> that every caller decodes into.\<close>

definition Frame_zero :: Frame where
  "Frame_zero =
     \<lparr>FIN = 0, RSV1 = 0, RSV2 = 0, RSV3 = 0, Opcode = 0, MASK = 0, PayloadLen = 0,
      MaskingKey = 0, PayloadData = []\<rparr>"

definition OpcodeContinue :: byte where "OpcodeContinue = 0x0"
definition OpcodeText :: byte where "OpcodeText = 0x1"
definition OpcodeBinary :: byte where "OpcodeBinary = 0x2"
definition OpcodeClose :: byte where "OpcodeClose = 0x8"
definition OpcodePing :: byte where "OpcodePing = 0x9"
definition OpcodePong :: byte where "OpcodePong = 0xA"

definition ErrDeformedFirstTwoBytes :: error where
  "ErrDeformedFirstTwoBytes = ProtocolError ''deformed first two bytes of frame''"
definition ErrDeformedOpcode :: error where
  "ErrDeformedOpcode = ProtocolError ''deformed opcode''"
definition ErrDeformedExtendedPayloadLength :: error where
  "ErrDeformedExtendedPayloadLength = ProtocolError ''deformed extended payload length''"
definition ErrDeformedMaskingKey :: error where
  "ErrDeformedMaskingKey = ProtocolError ''deformed masking key''"
definition ErrDeformedPayloadData :: error where
  "ErrDeformedPayloadData = ProtocolError ''deformed payload data''"
definition ErrFrameTooLarge :: error where
  "ErrFrameTooLarge = PlainError ''frame too large''"

definition CheckOpcode :: "byte \<Rightarrow> bool" where
  "CheckOpcode code \<longleftrightarrow>
     code = OpcodeContinue \<or> code = OpcodeText \<or> code = OpcodeBinary \<or>
     code = OpcodeClose \<or> code = OpcodePing \<or> code = OpcodePing \<or> code = OpcodePong"

text \<open>
  \<^verbatim>\<open>MaskData(data, maskingKey)\<close> rewrites \<^verbatim>\<open>data\<close> in place; the model returns the new
  contents. The key has four bytes at every call.
\<close>

definition MaskData :: "byte list \<Rightarrow> byte list \<Rightarrow> byte list" where
  "MaskData data maskingKey =
     map (\<lambda>i. data ! i XOR maskingKey ! (i mod 4)) [0 ..< length data]"

text \<open>
  \<^verbatim>\<open>MakeMaskingKey\<close>. The package \<^verbatim>\<open>math/rand\<close> is not part of the repository: \<open>rnd\<close>
  stands for it, as the pair of \<^verbatim>\<open>rand.NewSource\<close> (from a seed to the state of a new
  generator) and \<^verbatim>\<open>(*Rand).Uint32\<close> (the next value and the generator's new state). The
  generator is created by the call and dropped at its end.
\<close>

type_synonym 'g rand = "(int \<Rightarrow> 'g) \<times> ('g \<Rightarrow> uint32 \<times> 'g)"

definition MakeMaskingKey :: "'g rand \<Rightarrow> byte list" where
  "MakeMaskingKey rnd =
     (let r = fst rnd 35;
          mk = fst (snd rnd r)
      in [ucast (drop_bit 24 mk), ucast (drop_bit 16 mk), ucast (drop_bit 8 mk), ucast mk])"

text \<open>
  \<^verbatim>\<open>Frame.FromBufReader(r, maxPayloadLen)\<close>, in the four steps of the source: the first two
  bytes, the extended payload length, the masking key, the payload. The receiver \<open>f\<close> is
  updated in place, also when an error is returned; the result is the receiver and the
  reader after the call, and the error. \<open>pLen\<close> is the 7-bit length field.
\<close>

definition read_payload_len ::
  "Frame \<Rightarrow> reader \<Rightarrow> byte \<Rightarrow> Frame \<times> reader \<times> error option" where
  "read_payload_len f r pLen =
     (if pLen \<le> 125 then (f\<lparr>PayloadLen := ucast pLen\<rparr>, r, None)
      else if pLen = 126 then
        (case Read r 2 of
           (byt2, err, r') \<Rightarrow>
             if err \<or> length byt2 \<noteq> 2 then (f, r', Some ErrDeformedExtendedPayloadLength)
             else
               let p16 :: uint16 = push_bit 8 (ucast (byt2 ! 0)) OR ucast (byt2 ! 1)
               in (f\<lparr>PayloadLen := ucast p16\<rparr>, r', None))
      else if pLen = 127 then
        (case Read r 8 of
           (byt8, err, r') \<Rightarrow>
             if err \<or> length byt8 \<noteq> 8 then (f, r', Some ErrDeformedExtendedPayloadLength)
             else
               let p64 :: uint64 =
                     push_bit 56 (ucast (byt8 ! 0)) OR
                     push_bit 48 (ucast (byt8 ! 1)) OR
                     push_bit 40 (ucast (byt8 ! 2)) OR
                     push_bit 32 (ucast (byt8 ! 3)) OR
                     push_bit 24 (ucast (byt8 ! 4)) OR
                     push_bit 16 (ucast (byt8 ! 5)) OR
                     push_bit 8 (ucast (byt8 ! 6)) OR
                     ucast (byt8 ! 7)
               in (f\<lparr>PayloadLen := p64\<rparr>, r', None))
      else (f, r, Some (ProtocolError ''deformed payload length'')))"

definition read_masking_key ::
  "Frame \<Rightarrow> reader \<Rightarrow> Frame \<times> reader \<times> byte list \<times> error option" where
  "read_masking_key f r =
     (if MASK f = 1 then
        (case Read r 4 of
           (mkb, err, r') \<Rightarrow>
             if err \<or> length mkb \<noteq> 4 then (f, r', mkb, Some ErrDeformedMaskingKey)
             else
               (f\<lparr>MaskingKey :=
                     push_bit 24 (ucast (mkb ! 0)) OR
                     push_bit 16 (ucast (mkb ! 1)) OR
                     push_bit 8 (ucast (mkb ! 2)) OR
                     ucast (mkb ! 3)\<rparr>,
                r', mkb, None))
      else (f, r, [], None))"

definition read_payload ::
  "Frame \<Rightarrow> reader \<Rightarrow> byte \<Rightarrow> byte list \<Rightarrow> Frame \<times> reader \<times> error option" where
  "read_payload f r pLen mkb =
     (if pLen > 0 then
        (case ReadBytesAsMath r (PayloadLen f) of
           (r', Inl e) \<Rightarrow> (f, r', Some ErrDeformedPayloadData)
         | (r', Inr pld) \<Rightarrow>
             (f\<lparr>PayloadData := (if MASK f = 1 then MaskData pld mkb else pld)\<rparr>, r', None))
      else (f, r, None))"

definition FromBufReader :: "Frame \<Rightarrow> reader \<Rightarrow> uint64 \<Rightarrow> Frame \<times> reader \<times> error option" where
  "FromBufReader f r maxPayloadLen =
     (case Read r 2 of
        (byt2, err, r1) \<Rightarrow>
          if err \<or> length byt2 \<noteq> 2 then (f, r1, Some ErrDeformedFirstTwoBytes)
          else
            let f1 = f\<lparr>FIN := drop_bit 7 (byt2 ! 0),
                       RSV1 := drop_bit 7 (push_bit 1 (byt2 ! 0)),
                       RSV2 := drop_bit 7 (push_bit 2 (byt2 ! 0)),
                       RSV3 := drop_bit 7 (push_bit 3 (byt2 ! 0)),
                       Opcode := byt2 ! 0 AND 0xF\<rparr>
            in if \<not> CheckOpcode (Opcode f1) then (f1, r1, Some ErrDeformedOpcode)
               else
                 let f2 = f1\<lparr>MASK := drop_bit 7 (byt2 ! 1)\<rparr>;
                     pLen = byt2 ! 1 AND 0x7F
                 in (case read_payload_len f2 r1 pLen of
                       (f3, r3, Some e) \<Rightarrow> (f3, r3, Some e)
                     | (f3, r3, None) \<Rightarrow>
                         if PayloadLen f3 > maxPayloadLen then (f3, r3, Some ErrFrameTooLarge)
                         else
                           (case read_masking_key f3 r3 of
                              (f4, r4, mkb, Some e) \<Rightarrow> (f4, r4, Some e)
                            | (f4, r4, mkb, None) \<Rightarrow> read_payload f4 r4 pLen mkb)))"

text \<open>
  \<^verbatim>\<open>Frame.ToBytes(mask)\<close>. \<^verbatim>\<open>pLength\<close> is a Go \<^verbatim>\<open>int\<close>, the length of the payload;
  \<^verbatim>\<open>byte(pLength >> k)\<close> keeps the low eight bits. The receiver's \<^verbatim>\<open>MASK\<close> is set when
  \<open>msk\<close> (the parameter \<^verbatim>\<open>mask\<close>) holds; the result is the receiver after the call and the bytes or the error.
\<close>

definition ToBytes :: "'g rand \<Rightarrow> Frame \<Rightarrow> bool \<Rightarrow> Frame \<times> (error + byte list)" where
  "ToBytes rnd f msk =
     (let byts0 :: byte =
            push_bit 7 (FIN f) OR push_bit 6 (RSV1 f) OR push_bit 5 (RSV2 f) OR
            push_bit 4 (RSV3 f) OR Opcode f;
          pLength = length (PayloadData f)
      in case (if pLength \<le> 125 then Inr (pLength, [])
               else if pLength \<le> 65535 then
                 Inr (126, [of_nat (drop_bit 8 pLength), of_nat pLength])
               else if (of_nat pLength :: uint64) \<le> 0xFFFFFFFFFFFFFFFF then
                 Inr (127, [of_nat (drop_bit 56 pLength), of_nat (drop_bit 48 pLength),
                            of_nat (drop_bit 40 pLength), of_nat (drop_bit 32 pLength),
                            of_nat (drop_bit 24 pLength), of_nat (drop_bit 16 pLength),
                            of_nat (drop_bit 8 pLength), of_nat pLength])
               else Inl (PlainError ''too large frame'')) of
           Inl e \<Rightarrow> (f, Inl e)
         | Inr (pLen, extPLen) \<Rightarrow>
             let f' = (if msk then f\<lparr>MASK := 1\<rparr> else f);
                 byts1 :: byte = push_bit 7 (MASK f') OR of_nat pLen
             in (f', Inr ([byts0, byts1] @ extPLen @
                          (if msk then MakeMaskingKey rnd else []) @ PayloadData f)))"

text \<open>
  Frames and a generator for the examples: the frame that \<^verbatim>\<open>SendWhole\<close> builds for the
  text \<^verbatim>\<open>abcd\<close>, the text frame \<^verbatim>\<open>hello\<close> with its length field set, and a counter
  started at the seed in place of \<^verbatim>\<open>math/rand\<close>.
\<close>

definition frame_abcd :: Frame where
  "frame_abcd = Frame_zero\<lparr>FIN := 1, Opcode := OpcodeText, PayloadData := [0x61, 0x62, 0x63, 0x64]\<rparr>"



section \<open>Accept key (MakeAcceptKey)\<close>

text \<open>
  \<^verbatim>\<open>crypto/sha1\<close> and \<^verbatim>\<open>encoding/base64\<close> belong to the Go library, not to the
  repository. \<open>sha1\<close> below is SHA-1 as FIPS 180-4 defines it (padding, message schedule,
  80 rounds per 512-bit block, big-endian digest), \<open>base64_std\<close> is the standard encoding
  of RFC 4648 with padding, as \<^verbatim>\<open>base64.StdEncoding\<close> is.
\<close>

definition rotl :: "nat \<Rightarrow> uint32 \<Rightarrow> uint32" where
  "rotl n x = push_bit n x OR drop_bit (32 - n) x"

definition be32 :: "byte list \<Rightarrow> uint32" where
  "be32 bs =
     push_bit 24 (ucast (bs ! 0)) OR push_bit 16 (ucast (bs ! 1)) OR
     push_bit 8 (ucast (bs ! 2)) OR ucast (bs ! 3)"

definition be32_bytes :: "uint32 \<Rightarrow> byte list" where
  "be32_bytes w = [ucast (drop_bit 24 w), ucast (drop_bit 16 w), ucast (drop_bit 8 w), ucast w]"

definition be64_bytes :: "uint64 \<Rightarrow> byte list" where
  "be64_bytes w =
     [ucast (drop_bit 56 w), ucast (drop_bit 48 w), ucast (drop_bit 40 w), ucast (drop_bit 32 w),
      ucast (drop_bit 24 w), ucast (drop_bit 16 w), ucast (drop_bit 8 w), ucast w]"

definition sha1_pad :: "byte list \<Rightarrow> byte list" where
  "sha1_pad msg =
     msg @ [0x80] @ replicate ((119 - length msg mod 64) mod 64) 0 @
     be64_bytes (of_nat (8 * length msg))"

fun chunks :: "nat \<Rightarrow> nat \<Rightarrow> 'a list \<Rightarrow> 'a list list" where
  "chunks 0 k xs = []"
| "chunks (Suc n) k xs = take k xs # chunks n k (drop k xs)"

definition sha1_schedule :: "byte list \<Rightarrow> uint32 list" where
  "sha1_schedule block =
     fold (\<lambda>t w. w @ [rotl 1 (w ! (t - 3) XOR w ! (t - 8) XOR w ! (t - 14) XOR w ! (t - 16))])
       [16 ..< 80] (map be32 (chunks 16 4 block))"

definition sha1_f :: "nat \<Rightarrow> uint32 \<Rightarrow> uint32 \<Rightarrow> uint32 \<Rightarrow> uint32" where
  "sha1_f t b c d =
     (if t < 20 then (b AND c) OR (NOT b AND d)
      else if t < 40 then b XOR c XOR d
      else if t < 60 then (b AND c) OR (b AND d) OR (c AND d)
      else b XOR c XOR d)"

definition sha1_k :: "nat \<Rightarrow> uint32" where
  "sha1_k t =
     (if t < 20 then 0x5A827999 else if t < 40 then 0x6ED9EBA1
      else if t < 60 then 0x8F1BBCDC else 0xCA62C1D6)"

type_synonym sha1_state = "uint32 \<times> uint32 \<times> uint32 \<times> uint32 \<times> uint32"

definition sha1_round :: "uint32 list \<Rightarrow> nat \<Rightarrow> sha1_state \<Rightarrow> sha1_state" where
  "sha1_round w t s =
     (case s of (a, b, c, d, e) \<Rightarrow>
        (rotl 5 a + sha1_f t b c d + e + sha1_k t + w ! t, a, rotl 30 b, c, d))"

definition sha1_block :: "byte list \<Rightarrow> sha1_state \<Rightarrow> sha1_state" where
  "sha1_block block h =
     (case h of (h0, h1, h2, h3, h4) \<Rightarrow>
        (case fold (sha1_round (sha1_schedule block)) [0 ..< 80] h of
           (a, b, c, d, e) \<Rightarrow> (h0 + a, h1 + b, h2 + c, h3 + d, h4 + e)))"

definition sha1_init :: sha1_state where
  "sha1_init = (0x67452301, 0xEFCDAB89, 0x98BADCFE, 0x10325476, 0xC3D2E1F0)"

definition sha1 :: "byte list \<Rightarrow> byte list" where
  "sha1 msg =
     (let p = sha1_pad msg in
      case fold sha1_block (chunks (length p div 64) 64 p) sha1_init of
        (h0, h1, h2, h3, h4) \<Rightarrow>
          be32_bytes h0 @ be32_bytes h1 @ be32_bytes h2 @ be32_bytes h3 @ be32_bytes h4)"

definition base64_alphabet :: string where
  "base64_alphabet = ''ABCDEFGHIJKLMNOPQRSTUVWXYZabcdefghijklmnopqrstuvwxyz0123456789+/''"

definition b64 :: "byte \<Rightarrow> char" where
  "b64 c = base64_alphabet ! unat c"

text \<open>
  Three bytes give four characters of six bits each; a last group of one or two bytes is
  filled up with zero bits and padded with \<^verbatim>\<open>=\<close>.
\<close>

fun base64_std :: "byte list \<Rightarrow> string" where
  "base64_std [] = []"
| "base64_std [x] =
     [b64 (drop_bit 2 x), b64 (push_bit 4 (x AND 0x3)), CHR ''='', CHR ''='']"
| "base64_std [x, y] =
     [b64 (drop_bit 2 x), b64 (push_bit 4 (x AND 0x3) OR drop_bit 4 y),
      b64 (push_bit 2 (y AND 0xF)), CHR ''='']"
| "base64_std (x # y # z # rest) =
     [b64 (drop_bit 2 x), b64 (push_bit 4 (x AND 0x3) OR drop_bit 4 y),
      b64 (push_bit 2 (y AND 0xF) OR drop_bit 6 z), b64 (z AND 0x3F)] @ base64_std rest"

text \<open>\<^verbatim>\<open>[]byte(s)\<close>: the bytes of a string.\<close>

definition bytes_of :: "string \<Rightarrow> byte list" where
  "bytes_of s = map (\<lambda>c. of_nat (of_char c)) s"

definition keySuffixGUID :: string where
  "keySuffixGUID = ''258EAFA5-E914-47DA-95CA-C5AB0DC85B11''"

definition MakeAcceptKey :: "string \<Rightarrow> string" where
  "MakeAcceptKey reqKey = base64_std (sha1 (bytes_of (reqKey @ keySuffixGUID)))"

text \<open>
  The test vector of the repository, \<^verbatim>\<open>MakeAcceptKey("M/A=")\<close>: the padded message (one
  block of 64 bytes) and its message schedule, used to evaluate \<open>sha1\<close> in steps.
\<close>

definition accept_test_block :: "byte list" where
  "accept_test_block =
     [77, 47, 65, 61, 50, 53, 56, 69, 65, 70, 65, 53, 45, 69, 57, 49,
      52, 45, 52, 55, 68, 65, 45, 57, 53, 67, 65, 45, 67, 53, 65, 66,
      48, 68, 67, 56, 53, 66, 49, 49, 128, 0, 0, 0, 0, 0, 0, 0,
      0, 0, 0, 0, 0, 0, 0, 0, 0, 0, 0, 0, 0, 0, 1, 64]"

definition accept_test_schedule :: "uint32 list" where
  "accept_test_schedule =
     [1294942525, 842348613, 1095123253, 759511345, 875377719, 1145122105,
      893600045, 1127563586, 809780024, 893530417, 2147483648, 0,
      0, 0, 0, 320, 2019198560, 1415864458,
      3939952773, 582821072, 2853448480, 3678734845, 1333022090, 3100029991,
      649566538, 1554266210, 2753608005, 135625524, 3982501509, 4274742256,
      2121753020, 59107024, 2514561214, 2819898120, 3469686881, 3357080910,
      1076426319, 2802830486, 3210252389, 1335835061, 1626572879, 2281427062,
      2418097193, 3161119626, 2844312064, 2495671103, 3511158235, 2601274586,
      1580918623, 1836984278, 194346427, 445520411, 1997342712, 4018849614,
      685379540, 1221281218, 2193959150, 4234823676, 4126117024, 1640105089,
      3880718271, 726915094, 2362823587, 3018605282, 4168275001, 245322532,
      1966565378, 3647478746, 1812900207, 4064961841, 4282769031, 3599225702,
      4196674188, 3638926780, 1646293239, 3552304002, 3202601375, 296427108,
      2964456766, 2855151231]"

section \<open>Connection pool (ConnPool: NewConnPool, Add, Del, Count)\<close>

text \<open>
  A \<^verbatim>\<open>*Conn\<close> is a reference into a store of connections; of a connection only the
  field \<^verbatim>\<open>ID\<close> is read or written by the pool. The pool's map \<^verbatim>\<open>p\<close> holds
  references, \<^verbatim>\<open>idx\<close> and \<^verbatim>\<open>count\<close> are \<^verbatim>\<open>uint64\<close> and wrap around.
  The mutex is not modelled: every operation below is one critical section.
\<close>

type_synonym conn_ref = nat

record Conn =
  ID :: uint64

type_synonym conn_store = "conn_ref \<Rightarrow> Conn"

record ConnPool =
  p :: "uint64 \<rightharpoonup> conn_ref"
  idx :: uint64
  count :: uint64

definition NewConnPool :: ConnPool where
  "NewConnPool = \<lparr>p = Map.empty, idx = 0, count = 0\<rparr>"

definition Add :: "ConnPool \<times> conn_store \<Rightarrow> conn_ref \<Rightarrow> ConnPool \<times> conn_store" where
  "Add s c =
     (let cp = fst s; h = snd s;
          cp1 = cp\<lparr>idx := idx cp + 1\<rparr>;
          h1 = h(c := (h c)\<lparr>ID := idx cp1\<rparr>);
          cp2 = cp1\<lparr>p := (p cp1)(idx cp1 \<mapsto> c)\<rparr>;
          cp3 = cp2\<lparr>count := count cp2 + 1\<rparr>
      in (cp3, h1))"

definition Del :: "ConnPool \<times> conn_store \<Rightarrow> conn_ref \<Rightarrow> ConnPool \<times> conn_store" where
  "Del s c =
     (let cp = fst s; h = snd s;
          cp1 = cp\<lparr>p := (p cp)(ID (h c) := None)\<rparr>;
          cp2 = cp1\<lparr>count := count cp1 - 1\<rparr>
      in (cp2, h))"

definition Count :: "ConnPool \<Rightarrow> uint64" where
  "Count cp = count cp"

text \<open>Sequences of pool operations, the IDs they assign, and the number of \<^verbatim>\<open>Add\<close>s.\<close>

datatype pool_op = OpAdd conn_ref | OpDel conn_ref

fun pool_step :: "ConnPool \<times> conn_store \<Rightarrow> pool_op \<Rightarrow> ConnPool \<times> conn_store" where
  "pool_step s (OpAdd c) = Add s c"
| "pool_step s (OpDel c) = Del s c"

fun pool_run :: "pool_op list \<Rightarrow> ConnPool \<times> conn_store \<Rightarrow> ConnPool \<times> conn_store" where
  "pool_run [] s = s"
| "pool_run (x # xs) s = pool_run xs (pool_step s x)"

text \<open>The ID that each \<^verbatim>\<open>Add\<close> of the sequence writes into its connection, in order.\<close>

fun assigned_ids :: "pool_op list \<Rightarrow> ConnPool \<times> conn_store \<Rightarrow> uint64 list" where
  "assigned_ids [] s = []"
| "assigned_ids (OpAdd c # xs) s = ID (snd (Add s c) c) # assigned_ids xs (Add s c)"
| "assigned_ids (OpDel c # xs) s = assigned_ids xs (Del s c)"

fun num_adds :: "pool_op list \<Rightarrow> nat" where
  "num_adds [] = 0"
| "num_adds (OpAdd c # xs) = Suc (num_adds xs)"
| "num_adds (OpDel c # xs) = num_adds xs"

text \<open>Every \<^verbatim>\<open>Del\<close> of the sequence meets a connection whose current ID is a key of the map.\<close>

fun dels_present :: "pool_op list \<Rightarrow> ConnPool \<times> conn_store \<Rightarrow> bool" where
  "dels_present [] s = True"
| "dels_present (OpAdd c # xs) s = dels_present xs (Add s c)"
| "dels_present (OpDel c # xs) s = (p (fst s) (ID (snd s c)) \<noteq> None \<and> dels_present xs (Del s c))"

definition fresh_store :: conn_store where
  "fresh_store = (\<lambda>_. \<lparr>ID = 0\<rparr>)"

text \<open>The invariant that \<^verbatim>\<open>Add\<close> and a \<^verbatim>\<open>Del\<close> of a present ID maintain.\<close>

definition pool_inv :: "ConnPool \<Rightarrow> bool" where
  "pool_inv cp \<longleftrightarrow>
     finite (dom (p cp)) \<and> (\<forall>k \<in> dom (p cp). k \<le> idx cp) \<and>
     card (dom (p cp)) \<le> unat (idx cp) \<and> unat (count cp) = card (dom (p cp))"

section \<open>Bits of words and of the constants of the sources\<close>

lemma bit_below: "(u :: 'a::len word) < 2 ^ k \<Longrightarrow> bit u n \<Longrightarrow> n < k"
proof -
  assume a: "u < 2 ^ k" and b: "bit u n"
  from a have "u AND mask k = u" by (rule less_mask_eq)
  then have "bit (u AND mask k) n" using b by simp
  then show "n < k" by (simp add: bit_and_iff bit_mask_iff)
qed

lemma int_consts:
  "(0x80::int) = push_bit 7 (mask 1)"
  "(0xC0::int) = push_bit 6 (mask 2)"
  "(0xE0::int) = push_bit 5 (mask 3)"
  "(0xF0::int) = push_bit 4 (mask 4)"
  "(0x3F::int) = mask 6"
  "(0x1F::int) = mask 5"
  "(0xF::int) = mask 4"
  "(0x7::int) = mask 3"
  "(0x7F::int) = mask 7"
  "(0xFC0::int) = push_bit 6 (mask 6)"
  "(0x3F000::int) = push_bit 12 (mask 6)"
  "(0x6::int) = push_bit 1 (mask 2)"
  "(0xE::int) = push_bit 1 (mask 3)"
  "(0x1E::int) = push_bit 1 (mask 4)"
  by (simp_all add: mask_eq_exp_minus_1 push_bit_eq_mult)

lemma bit_int_consts:
  "bit (0x80::int) n \<longleftrightarrow> n = 7"
  "bit (0xC0::int) n \<longleftrightarrow> 6 \<le> n \<and> n < 8"
  "bit (0xE0::int) n \<longleftrightarrow> 5 \<le> n \<and> n < 8"
  "bit (0xF0::int) n \<longleftrightarrow> 4 \<le> n \<and> n < 8"
  "bit (0x3F::int) n \<longleftrightarrow> n < 6"
  "bit (0x1F::int) n \<longleftrightarrow> n < 5"
  "bit (0xF::int) n \<longleftrightarrow> n < 4"
  "bit (0x7::int) n \<longleftrightarrow> n < 3"
  "bit (0x7F::int) n \<longleftrightarrow> n < 7"
  "bit (0xFC0::int) n \<longleftrightarrow> 6 \<le> n \<and> n < 12"
  "bit (0x3F000::int) n \<longleftrightarrow> 12 \<le> n \<and> n < 18"
  "bit (0x6::int) n \<longleftrightarrow> 1 \<le> n \<and> n < 3"
  "bit (0xE::int) n \<longleftrightarrow> 1 \<le> n \<and> n < 4"
  "bit (0x1E::int) n \<longleftrightarrow> 1 \<le> n \<and> n < 5"
  unfolding int_consts bit_push_bit_iff bit_mask_iff by auto

lemma high_bit_not_le_7F: "bit (b :: byte) 7 \<Longrightarrow> \<not> b \<le> 0x7F"
proof
  assume b: "bit b 7" and "b \<le> 0x7F"
  then have "b < 2 ^ 7" by (simp add: word_le_nat_alt word_less_nat_alt)
  from bit_below [OF this b] show False by simp
qed

lemma le_7F_iff: "(b :: byte) \<le> 0x7F \<longleftrightarrow> \<not> bit b 7"
proof
  assume "b \<le> 0x7F"
  then show "\<not> bit b 7" using high_bit_not_le_7F by blast
next
  assume nb: "\<not> bit b 7"
  have "b AND 0x7F = b"
  proof (rule bit_word_eqI)
    fix n assume "n < LENGTH(8)"
    then have n: "n < 8" by simp
    show "bit (b AND 0x7F) n \<longleftrightarrow> bit b n"
    proof (cases "n = 7")
      case True
      with nb show ?thesis by (simp add: bit_simps)
    next
      case False
      with n have "n < 7" by simp
      then show ?thesis by (simp add: bit_simps bit_int_consts)
    qed
  qed
  then have "b = b AND 0x7F" by simp
  also have "\<dots> \<le> 0x7F" by (rule word_and_le1)
  finally show "b \<le> 0x7F" .
qed

section \<open>Header parsing: results\<close>

lemma IndexByte_first: "c \<notin> set xs \<Longrightarrow> IndexByte (xs @ c # ys) c = int (length xs)"
  by (induction xs) (auto simp: Let_def)

lemma FromBytes_colon_LF:
  assumes "CHR '':'' \<notin> set key" and "LF \<notin> set key"
  shows "FromBytes h (key @ CHR '':'' # LF # rest) False = Panic SliceBoundsOutOfRange"
proof -
  have i: "IndexByte (key @ CHR '':'' # LF # rest) LF = int (length key) + 1"
    using IndexByte_first [of LF "key @ [CHR '':'']" rest] assms by simp
  have r: "ReadBytes (key @ CHR '':'' # LF # rest) LF = (key @ [CHR '':'', LF], False, rest)"
    by (simp add: ReadBytes_def i Let_def nat_add_distrib)
  have k: "IndexByte (key @ [CHR '':'', LF]) (CHR '':'') = int (length key)"
    using IndexByte_first [of "CHR '':''" key "[LF]"] assms by simp
  show ?thesis
    by (subst FromBytes.simps) (simp add: r k Let_def slice_def)
qed

lemma FromBytes_colon_CRLF:
  assumes "CHR '':'' \<notin> set key" and "LF \<notin> set key"
  shows "FromBytes h (key @ CHR '':'' # CR # LF # rest) True = Panic SliceBoundsOutOfRange"
proof -
  have i: "IndexByte (key @ CHR '':'' # CR # LF # rest) LF = int (length key) + 2"
    using IndexByte_first [of LF "key @ [CHR '':'', CR]" rest] assms by simp
  have r: "ReadBytes (key @ CHR '':'' # CR # LF # rest) LF = (key @ [CHR '':'', CR, LF], False, rest)"
    by (simp add: ReadBytes_def i Let_def nat_add_distrib)
  have k: "IndexByte (key @ [CHR '':'', CR, LF]) (CHR '':'') = int (length key)"
    using IndexByte_first [of "CHR '':''" key "[CR, LF]"] assms by simp
  show ?thesis
    by (subst FromBytes.simps) (simp add: r k Let_def slice_def)
qed

text \<open>
  Claim C10, as amended. A header line whose first colon is immediately followed by the line
  terminator (LF with \<^verbatim>\<open>isCRLF=false\<close>, CR LF with \<^verbatim>\<open>isCRLF=true\<close>) makes the value slice start after its end: \<^verbatim>\<open>FromBytes\<close> neither
  returns its headers nor the "deformed header" error, it panics with a slice-bounds
  violation. Here the line is the first one of the input, whatever follows it and whatever
  the header held before.
\<close>

theorem FromBytes_empty_value_panics:
  assumes "CHR '':'' \<notin> set key" and "LF \<notin> set key"
  shows "FromBytes h (key @ CHR '':'' # LF # rest) False = Panic SliceBoundsOutOfRange \<and>
         FromBytes h (key @ CHR '':'' # CR # LF # rest) True = Panic SliceBoundsOutOfRange"
  using assms by (simp add: FromBytes_colon_LF FromBytes_colon_CRLF)

text \<open>Witness for C10: the lines \<^verbatim>\<open>Host:\<close> LF and \<^verbatim>\<open>Host:\<close> CR LF.\<close>

theorem FromBytes_empty_value_panics_witness:
  "CHR '':'' \<notin> set ''Host'' \<and> LF \<notin> set ''Host'' \<and>
   FromBytes Map.empty (''Host:'' @ [LF]) False = Panic SliceBoundsOutOfRange \<and>
   FromBytes Map.empty (''Host:'' @ [CR, LF]) True = Panic SliceBoundsOutOfRange"
  using FromBytes_empty_value_panics [of "''Host''" Map.empty "[]"] by simp

text \<open>
  Counterexample for C10 as stated ("fewer than two bytes"): with exactly one byte between the
  colon and the terminator, as in \<^verbatim>\<open>Host:x\<close> LF, the lower bound \<^verbatim>\<open>kvSep+2\<close> equals the
  upper bound, the slice is empty and \<^verbatim>\<open>FromBytes\<close> returns normally, with the empty
  string as the value.
\<close>

theorem FromBytes_one_byte_value_counterexample:
  "IndexByte (''Host:x'' @ [LF]) (CHR '':'') + 2 = int (length (''Host:x'' @ [LF])) - 1 \<and>
   FromBytes Map.empty (''Host:x'' @ [LF]) False = Done (Map.empty(''Host'' \<mapsto> ['''']), None) \<and>
   IndexByte (''Host:x'' @ [CR, LF]) (CHR '':'') + 2 = int (length (''Host:x'' @ [CR, LF])) - 2 \<and>
   FromBytes Map.empty (''Host:x'' @ [CR, LF]) True = Done (Map.empty(''Host'' \<mapsto> ['''']), None)"
  by (simp add: FromBytes.simps ReadBytes_def slice_def Let_def)

text \<open>Headers built by \<^verbatim>\<open>FromBytes\<close> have a first value for every key.\<close>

lemma FromBytes_wf:
  "Header_wf h \<Longrightarrow> FromBytes h br c = Done (h', e) \<Longrightarrow> Header_wf h'"
proof (induction h br c rule: FromBytes.induct)
  case (1 h br isCRLF)
  show ?case
  proof (cases "ReadBytes br LF")
    case (fields line eof br')
    show ?thesis
    proof (cases eof)
      case True
      with "1.prems" fields show ?thesis
        by (simp add: FromBytes.simps [of h br])
    next
      case False
      note neof = this
      show ?thesis
      proof (cases "IndexByte line (CHR '':'') < 0")
        case True
        with "1.prems" fields neof show ?thesis
          by (simp add: FromBytes.simps [of h br] Let_def)
      next
        case nneg: False
        let ?v = "if isCRLF then slice line (IndexByte line (CHR '':'') + 2) (int (length line) - 2)
                  else slice line (IndexByte line (CHR '':'') + 2) (int (length line) - 1)"
        from "1.prems"(2) fields neof nneg obtain val key where
          v: "?v = Done val" and k: "slice line 0 (IndexByte line (CHR '':'')) = Done key"
          and rec: "FromBytes (h(key \<mapsto> (case h key of None \<Rightarrow> [] | Some vs \<Rightarrow> vs) @ [val])) br' isCRLF
                    = Done (h', e)"
          by (simp add: FromBytes.simps [of h br] Let_def split: outcome.splits if_splits)
        have wf': "Header_wf (h(key \<mapsto> (case h key of None \<Rightarrow> [] | Some vs \<Rightarrow> vs) @ [val]))"
          using "1.prems"(1) by (simp add: Header_wf_def)
        show ?thesis
          using "1.IH" [OF fields [symmetric] refl neof refl nneg v k wf' rec] .
      qed
    qed
  qed
qed

section \<open>Default handshake check: results\<close>

lemma first_value_wf:
  "Header_wf h \<Longrightarrow> first_value h k = (case h k of None \<Rightarrow> None | Some vs \<Rightarrow> Some (hd vs))"
  by (auto simp: Header_wf_def first_value_def split: option.splits list.splits)

lemma HasKeyAndValEqual_wf:
  "Header_wf h \<Longrightarrow> HasKeyAndValEqual h k v = Done (first_value h k = Some v)"
  by (auto simp: Header_wf_def first_value_def HasKeyAndValEqual_def
      split: option.splits list.splits)

lemma HasKeyAndValContains_wf:
  "Header_wf h \<Longrightarrow>
   HasKeyAndValContains h k v =
   Done (case first_value h k of None \<Rightarrow> False | Some v0 \<Rightarrow> sublist v v0)"
  by (auto simp: Header_wf_def first_value_def HasKeyAndValContains_def
      split: option.splits list.splits)

lemma GetOne_first_value:
  "first_value h k = Some v \<Longrightarrow> GetOne h k = Done v"
  by (auto simp: first_value_def GetOne_def Get_def split: option.splits list.splits)

lemma first_value_HasKey: "first_value h k = Some v \<Longrightarrow> HasKey h k"
  by (auto simp: first_value_def HasKey_def split: option.splits list.splits)

text \<open>
  Claim C4. For every handshake request whose header gives each of its keys at least one
  value (as every header built by \<^verbatim>\<open>FromBytes\<close> does), \<^verbatim>\<open>DefaultServerHandshakeCheck\<close>
  returns code 0 and no error exactly when rules 1 to 6 hold and the open-handler router has
  a handler for the request path; it returns 400 with an error when one of rules 1 to 6
  fails, and 404 with an error when these hold and only the handler is missing.
\<close>

theorem DefaultServerHandshakeCheck_verdict:
  assumes wf: "Header_wf (Header hsReq)"
  shows "(DefaultServerHandshakeCheck hsReq router = Done (0, None) \<longleftrightarrow>
            spec_rules_1_to_6 hsReq \<and> HasHandler router (RequestURL_Path hsReq)) \<and>
         (\<not> spec_rules_1_to_6 hsReq \<longrightarrow>
            (\<exists>e. DefaultServerHandshakeCheck hsReq router = Done (400, Some e))) \<and>
         (spec_rules_1_to_6 hsReq \<and> \<not> HasHandler router (RequestURL_Path hsReq) \<longrightarrow>
            (\<exists>e. DefaultServerHandshakeCheck hsReq router = Done (404, Some e)))"
proof (cases "first_value (Header hsReq) ''Sec-WebSocket-Version'' = Some ''13''")
  case True
  from GetOne_first_value [OF True] first_value_HasKey [OF True] True
  show ?thesis
    by (simp add: DefaultServerHandshakeCheck_def spec_rules_1_to_6_def Let_def
        HasKeyAndValEqual_wf [OF wf] HasKeyAndValContains_wf [OF wf] HasKey_def
        bind_outcome_def StatusBadRequest_def StatusNotFound_def)
next
  case False
  then show ?thesis
    by (simp add: DefaultServerHandshakeCheck_def spec_rules_1_to_6_def Let_def
        HasKeyAndValEqual_wf [OF wf] HasKeyAndValContains_wf [OF wf] HasKey_def
        bind_outcome_def StatusBadRequest_def StatusNotFound_def)
qed

lemma request_ok_wf: "Header_wf (Header request_ok)"
  by (simp add: Header_wf_def request_ok_def)

lemma request_ok_rules: "spec_rules_1_to_6 request_ok"
  by (simp add: spec_rules_1_to_6_def request_ok_def first_value_def sublist_code)

text \<open>Witness for C4: an accepted request, a 400 and a 404.\<close>

theorem DefaultServerHandshakeCheck_verdict_witness:
  "Header_wf (Header request_ok) \<and> spec_rules_1_to_6 request_ok \<and>
   HasHandler router_root (RequestURL_Path request_ok) \<and>
   DefaultServerHandshakeCheck request_ok router_root = Done (0, None) \<and>
   Header_wf (Header request_no_version) \<and> \<not> spec_rules_1_to_6 request_no_version \<and>
   fst (case DefaultServerHandshakeCheck request_no_version router_root of Done r \<Rightarrow> r) = 400 \<and>
   Header_wf (Header request_other_path) \<and> spec_rules_1_to_6 request_other_path \<and>
   \<not> HasHandler router_root (RequestURL_Path request_other_path) \<and>
   fst (case DefaultServerHandshakeCheck request_other_path router_root of Done r \<Rightarrow> r) = 404"
proof -
  have w1: "Header_wf (Header request_ok)" by (rule request_ok_wf)
  have w2: "Header_wf (Header request_no_version)"
    using w1 by (simp add: Header_wf_def request_no_version_def)
  have w3: "Header_wf (Header request_other_path)"
    using w1 by (simp add: request_other_path_def)
  have r1: "spec_rules_1_to_6 request_ok" by (rule request_ok_rules)
  have r2: "\<not> spec_rules_1_to_6 request_no_version"
    by (simp add: spec_rules_1_to_6_def request_no_version_def first_value_def)
  have r3: "spec_rules_1_to_6 request_other_path"
    using r1 by (simp add: spec_rules_1_to_6_def request_other_path_def)
  have h1: "HasHandler router_root (RequestURL_Path request_ok)"
    by (simp add: HasHandler_def router_root_def request_ok_def)
  have h3: "\<not> HasHandler router_root (RequestURL_Path request_other_path)"
    by (simp add: HasHandler_def router_root_def request_other_path_def)
  from DefaultServerHandshakeCheck_verdict [OF w1, of router_root] r1 h1
  have c1: "DefaultServerHandshakeCheck request_ok router_root = Done (0, None)" by blast
  from DefaultServerHandshakeCheck_verdict [OF w2, of router_root] r2
  have c2: "fst (case DefaultServerHandshakeCheck request_no_version router_root of Done r \<Rightarrow> r) = 400"
    by auto
  from DefaultServerHandshakeCheck_verdict [OF w3, of router_root] r3 h3
  have c3: "fst (case DefaultServerHandshakeCheck request_other_path router_root of Done r \<Rightarrow> r) = 404"
    by auto
  from w1 w2 w3 r1 r2 r3 h1 h3 c1 c2 c3 show ?thesis by blast
qed

section \<open>UTF-8 conversions: results\<close>

lemma roundtrip_1:
  assumes "(u :: uint32) \<le> 0x7F"
  shows "Unicode2utf8 u = Inr [ucast u] \<and> Utf82unicode [ucast u] = Inr u"
proof -
  from assms have lt: "u < 2 ^ 7" by (simp add: word_le_nat_alt word_less_nat_alt)
  have h: "bit u n \<Longrightarrow> n < 7" for n using bit_below [OF lt] .
  have "\<not> bit (ucast u :: byte) 7"
    using h [of 7] by (auto simp: bit_simps)
  then have le: "(ucast u :: byte) \<le> 0x7F" by (simp add: le_7F_iff)
  have rt: "ucast (ucast u :: byte) = u"
    by (rule bit_word_eqI) (auto simp: bit_simps dest: h)
  show ?thesis using assms le rt by (simp add: Unicode2utf8_def Utf82unicode_def)
qed

lemma roundtrip_2:
  assumes "(u :: uint32) \<ge> 0x80" "u \<le> 0x7FF"
  shows "\<exists>bs. Unicode2utf8 u = Inr bs \<and> Utf82unicode bs = Inr u"
proof -
  from assms have lt: "u < 2 ^ 11" by (simp add: word_le_nat_alt word_less_nat_alt)
  have h: "bit u n \<Longrightarrow> n < 11" for n using bit_below [OF lt] .
  let ?b1 = "ucast (drop_bit 6 u OR 0xC0) :: byte"
  let ?b2 = "ucast ((u AND 0x3F) OR 0x80) :: byte"
  have enc: "Unicode2utf8 u = Inr [?b1, ?b2]"
    using assms by (simp add: Unicode2utf8_def word_le_nat_alt)
  have "bit ?b1 7" by (simp add: bit_simps bit_int_consts)
  then have n1: "\<not> ?b1 \<le> 0x7F" by (rule high_bit_not_le_7F)
  have lead: "drop_bit 5 ?b1 = 0x6"
    by (rule bit_word_eqI) (auto simp: bit_simps bit_int_consts dest: h)
  have val: "push_bit 6 (ucast (?b1 AND 0x1F)) OR ucast (?b2 AND 0x3F) = u"
    by (rule bit_word_eqI) (auto simp: bit_simps bit_int_consts dest: h)
  have "Utf82unicode [?b1, ?b2] = Inr u"
    using n1 lead val by (simp add: Utf82unicode_def)
  with enc show ?thesis by blast
qed

lemma roundtrip_3:
  assumes "(u :: uint32) \<ge> 0x800" "u \<le> 0xFFFF"
  shows "\<exists>bs. Unicode2utf8 u = Inr bs \<and> Utf82unicode bs = Inr u"
proof -
  from assms have lt: "u < 2 ^ 16" by (simp add: word_le_nat_alt word_less_nat_alt)
  have h: "bit u n \<Longrightarrow> n < 16" for n using bit_below [OF lt] .
  let ?b1 = "ucast (drop_bit 12 u OR 0xE0) :: byte"
  let ?b2 = "ucast (drop_bit 6 (u AND 0xFC0) OR 0x80) :: byte"
  let ?b3 = "ucast ((u AND 0x3F) OR 0x80) :: byte"
  have enc: "Unicode2utf8 u = Inr [?b1, ?b2, ?b3]"
    using assms by (simp add: Unicode2utf8_def word_le_nat_alt)
  have "bit ?b1 7" by (simp add: bit_simps bit_int_consts)
  then have n1: "\<not> ?b1 \<le> 0x7F" by (rule high_bit_not_le_7F)
  have lead: "drop_bit 4 ?b1 = 0xE"
  proof (rule bit_word_eqI)
    fix n assume "n < LENGTH(8)"
    have "\<not> bit u (n + 16)" using h [of "n + 16"] by auto
    then show "bit (drop_bit 4 ?b1) n \<longleftrightarrow> bit (0xE :: byte) n"
      by (auto simp: bit_simps bit_int_consts ac_simps)
  qed
  have val: "push_bit 12 (ucast (?b1 AND 0xF)) OR push_bit 6 (ucast (?b2 AND 0x3F)) OR
             ucast (?b3 AND 0x3F) = u" (is "?l = u")
  proof (rule bit_word_eqI)
    fix n assume "n < LENGTH(32)"
    consider "n < 6" | "6 \<le> n" "n < 12" | "12 \<le> n" "n < 16" | "16 \<le> n" by linarith
    then show "bit ?l n \<longleftrightarrow> bit u n"
    proof cases
      case 1
      then show ?thesis by (auto simp: bit_simps bit_int_consts)
    next
      case 2
      then show ?thesis by (auto simp: bit_simps bit_int_consts) 
    next
      case 3
      then show ?thesis by (auto simp: bit_simps bit_int_consts)
    next
      case 4
      then have "\<not> bit u n" using h [of n] by auto
      with 4 show ?thesis by (auto simp: bit_simps bit_int_consts)
    qed
  qed
  have "Utf82unicode [?b1, ?b2, ?b3] = Inr u"
    using n1 lead val by (simp add: Utf82unicode_def)
  with enc show ?thesis by blast
qed

lemma roundtrip_4:
  assumes "(u :: uint32) \<ge> 0x10000" "u \<le> 0x10FFFF"
  shows "\<exists>bs. Unicode2utf8 u = Inr bs \<and> Utf82unicode bs = Inr u"
proof -
  from assms have lt: "u < 2 ^ 21" by (simp add: word_le_nat_alt word_less_nat_alt)
  have h: "bit u n \<Longrightarrow> n < 21" for n using bit_below [OF lt] .
  let ?b1 = "ucast (drop_bit 18 u OR 0xF0) :: byte"
  let ?b2 = "ucast (drop_bit 12 (u AND 0x3F000) OR 0x80) :: byte"
  let ?b3 = "ucast (drop_bit 6 (u AND 0xFC0) OR 0x80) :: byte"
  let ?b4 = "ucast ((u AND 0x3F) OR 0x80) :: byte"
  have enc: "Unicode2utf8 u = Inr [?b1, ?b2, ?b3, ?b4]"
    using assms by (simp add: Unicode2utf8_def word_le_nat_alt)
  have "bit ?b1 7" by (simp add: bit_simps bit_int_consts)
  then have n1: "\<not> ?b1 \<le> 0x7F" by (rule high_bit_not_le_7F)
  have lead: "drop_bit 3 ?b1 = 0x1E"
  proof (rule bit_word_eqI)
    fix n assume "n < LENGTH(8)"
    have "\<not> bit u (n + 21)" using h [of "n + 21"] by auto
    then show "bit (drop_bit 3 ?b1) n \<longleftrightarrow> bit (0x1E :: byte) n"
      by (auto simp: bit_simps bit_int_consts ac_simps)
  qed
  have val: "push_bit 18 (ucast (?b1 AND 0x7)) OR push_bit 12 (ucast (?b2 AND 0x3F)) OR
             push_bit 6 (ucast (?b3 AND 0x3F)) OR ucast (?b4 AND 0x3F) = u" (is "?l = u")
  proof (rule bit_word_eqI)
    fix n assume "n < LENGTH(32)"
    consider "n < 6" | "6 \<le> n" "n < 12" | "12 \<le> n" "n < 18" | "18 \<le> n" "n < 21"
      | "21 \<le> n" by linarith
    then show "bit ?l n \<longleftrightarrow> bit u n"
    proof cases
      case 1
      then show ?thesis by (auto simp: bit_simps bit_int_consts)
    next
      case 2
      then show ?thesis by (auto simp: bit_simps bit_int_consts) 
    next
      case 3
      then show ?thesis by (auto simp: bit_simps bit_int_consts)
    next
      case 4
      then show ?thesis by (auto simp: bit_simps bit_int_consts)
    next
      case 5
      then have "\<not> bit u n" using h [of n] by auto
      with 5 show ?thesis by (auto simp: bit_simps bit_int_consts)
    qed
  qed
  have "Utf82unicode [?b1, ?b2, ?b3, ?b4] = Inr u"
    using n1 lead val by (simp add: Utf82unicode_def)
  with enc show ?thesis by blast
qed

text \<open>
  Claim C7. For every Unicode scalar \<open>u\<close> in \<open>[0, 0x10FFFF]\<close> outside the surrogate range
  \<open>[0xD800, 0xDFFF]\<close>, \<^verbatim>\<open>Unicode2utf8(u)\<close> succeeds and \<^verbatim>\<open>Utf82unicode\<close> of its bytes
  returns \<open>u\<close>.
\<close>

theorem Unicode2utf8_roundtrip:
  assumes "u \<le> 0x10FFFF" and "\<not> (0xD800 \<le> u \<and> u \<le> 0xDFFF)"
  shows "\<exists>bs. Unicode2utf8 u = Inr bs \<and> Utf82unicode bs = Inr u"
proof -
  have "unat u \<le> 0x7F \<or> (0x80 \<le> unat u \<and> unat u \<le> 0x7FF) \<or>
        (0x800 \<le> unat u \<and> unat u \<le> 0xFFFF) \<or> 0x10000 \<le> unat u"
    by linarith
  then consider "u \<le> 0x7F" | "0x80 \<le> u" "u \<le> 0x7FF" | "0x800 \<le> u" "u \<le> 0xFFFF"
    | "0x10000 \<le> u" "u \<le> 0x10FFFF"
    using assms(1) unfolding word_le_nat_alt by auto
  then show ?thesis
  proof cases
    case 1
    from roundtrip_1 [OF 1] show ?thesis by blast
  next
    case 2
    then show ?thesis by (rule roundtrip_2)
  next
    case 3
    then show ?thesis by (rule roundtrip_3)
  next
    case 4
    then show ?thesis by (rule roundtrip_4)
  qed
qed

text \<open>Witness for C7: U+1F604, the 4-byte case of the repository's own test.\<close>

theorem Unicode2utf8_roundtrip_witness:
  "(0x1F604 :: uint32) \<le> 0x10FFFF \<and> \<not> (0xD800 \<le> (0x1F604 :: uint32) \<and> (0x1F604 :: uint32) \<le> 0xDFFF) \<and>
   Unicode2utf8 0x1F604 = Inr [0xF0, 0x9F, 0x98, 0x84] \<and>
   Utf82unicode [0xF0, 0x9F, 0x98, 0x84] = Inr 0x1F604"
proof -
  have a: "(0x1F604 :: uint32) \<le> 0x10FFFF" by simp
  have b: "\<not> (0xD800 \<le> (0x1F604 :: uint32) \<and> (0x1F604 :: uint32) \<le> 0xDFFF)" by simp
  have e: "Unicode2utf8 0x1F604 = Inr [0xF0, 0x9F, 0x98, 0x84]"
    by (simp add: Unicode2utf8_def)
  from Unicode2utf8_roundtrip [OF a b] e
  have "Utf82unicode [0xF0, 0x9F, 0x98, 0x84] = Inr 0x1F604" by auto
  with a b e show ?thesis by blast
qed

section \<open>UTF-8 validation: results\<close>

lemma lead_unat: "drop_bit k (b :: byte) = c \<longleftrightarrow> unat b div 2 ^ k = unat c"
proof -
  have "unat (drop_bit k b) = unat b div 2 ^ k"
    by (subst unat_drop_bit_eq) (simp add: drop_bit_eq_div)
  then show ?thesis by (simp add: word_unat_eq_iff)
qed

lemma lead2: "drop_bit 5 (b :: byte) = 0x6 \<Longrightarrow> \<not> b \<le> 0x7F \<and> 0xC0 \<le> b"
  by (auto simp: lead_unat word_le_nat_alt)

lemma lead3: "drop_bit 4 (b :: byte) = 0xE \<Longrightarrow> \<not> b \<le> 0x7F \<and> drop_bit 5 b \<noteq> 0x6"
  by (auto simp: lead_unat word_le_nat_alt)

lemma lead4:
  "drop_bit 3 (b :: byte) = 0x1E \<Longrightarrow>
   \<not> b \<le> 0x7F \<and> drop_bit 5 b \<noteq> 0x6 \<and> drop_bit 4 b \<noteq> 0xE"
  by (auto simp: lead_unat word_le_nat_alt)

lemma cont_ge: "cont b \<Longrightarrow> 0x80 \<le> b"
proof -
  assume "cont b"
  then have "0x80 = b AND 0xC0" by (simp add: cont_def)
  also have "\<dots> \<le> b" by (rule word_and_le2)
  finally show ?thesis .
qed

lemma from_step1:
  assumes "b1 \<le> 0x7F"
  shows "IsIntactUtf8_from (pre @ b1 # rest) (length pre) =
         IsIntactUtf8_from (pre @ b1 # rest) (length (pre @ [b1]))"
  using assms by (subst IsIntactUtf8_from.simps) (simp add: Let_def)

lemma from_step2:
  assumes "utf8_form_2 [b1, b2]"
  shows "IsIntactUtf8_from (pre @ b1 # b2 # rest) (length pre) =
         IsIntactUtf8_from (pre @ b1 # b2 # rest) (length (pre @ [b1, b2]))"
proof -
  from assms have l: "drop_bit 5 b1 = 0x6" and c: "cont b2" and n: "\<not> (b1 = 0xC0 \<and> b2 = 0x80)"
    by simp_all
  from lead2 [OF l] have n7: "\<not> b1 \<le> 0x7F" and ge1: "0xC0 \<le> b1" by simp_all
  from cont_ge [OF c] have ge2: "0x80 \<le> b2" .
  from n ge1 ge2 have gt: "b1 > 0xC0 \<or> b2 > 0x80" by auto
  show ?thesis
    using n7 l c gt
    by (subst IsIntactUtf8_from.simps) (simp add: Let_def nth_append cont_def)
qed

lemma from_step3:
  assumes "utf8_group_3 [b1, b2, b3]"
  shows "IsIntactUtf8_from (pre @ b1 # b2 # b3 # rest) (length pre) =
         IsIntactUtf8_from (pre @ b1 # b2 # b3 # rest) (length (pre @ [b1, b2, b3]))"
proof -
  from assms have l: "drop_bit 4 b1 = 0xE" and ok: "scalar3_ok (scalar3 b1 b2 b3)"
    by simp_all
  from lead3 [OF l] have n7: "\<not> b1 \<le> 0x7F" and n2: "drop_bit 5 b1 \<noteq> 0x6" by simp_all
  show ?thesis
    using n7 n2 l ok
    by (subst IsIntactUtf8_from.simps)
      (simp add: Let_def nth_append scalar3_ok_def scalar3_def)
qed

lemma from_step4:
  assumes "utf8_form_4_low [b1, b2, b3, b4]"
  shows "IsIntactUtf8_from (pre @ b1 # b2 # b3 # b4 # rest) (length pre) =
         IsIntactUtf8_from (pre @ b1 # b2 # b3 # b4 # rest) (length (pre @ [b1, b2, b3, b4]))"
proof -
  from assms have l: "drop_bit 3 b1 = 0x1E" and p: "b1 AND 0x7 \<le> 0x4"
    and c: "cont b2" "cont b3" "cont b4" and lo: "b2 AND 0x3F \<le> 0xF"
    by simp_all
  from lead4 [OF l] have n7: "\<not> b1 \<le> 0x7F" and n2: "drop_bit 5 b1 \<noteq> 0x6"
    and n3: "drop_bit 4 b1 \<noteq> 0xE" by simp_all
  show ?thesis
    using n7 n2 n3 l p c lo
    by (subst IsIntactUtf8_from.simps) (simp add: Let_def nth_append cont_def eval_nat_numeral)
qed

lemma form_3_group: "utf8_form_3 e \<Longrightarrow> utf8_group_3 e"
  by (cases e rule: utf8_form_3.cases) simp_all

lemma from_end: "IsIntactUtf8_from u8 (length u8)"
  by (subst IsIntactUtf8_from.simps) simp

lemma narrow_accepted:
  "list_all narrow_encoding es \<Longrightarrow> IsIntactUtf8_from (pre @ concat es) (length pre)"
proof (induction es arbitrary: pre)
  case Nil
  show ?case using from_end [of pre] by simp
next
  case (Cons e es)
  then have e: "narrow_encoding e" and es: "list_all narrow_encoding es" by simp_all
  from e consider (1) "utf8_form_1 e" | (2) "utf8_form_2 e" | (3) "utf8_form_3 e"
    | (4) "utf8_form_4_low e"
    by (auto simp: narrow_encoding_def)
  then show ?case
  proof cases
    case 1
    then obtain b1 where eq: "e = [b1]" and le: "b1 \<le> 0x7F"
      by (cases e rule: utf8_form_1.cases) simp_all
    from Cons.IH [OF es, of "pre @ e"] from_step1 [OF le, of pre "concat es"]
    show ?thesis by (simp add: eq)
  next
    case 2
    then obtain b1 b2 where eq: "e = [b1, b2]"
      by (cases e rule: utf8_form_2.cases) simp_all
    from Cons.IH [OF es, of "pre @ e"] from_step2 [OF 2 [unfolded eq], of pre "concat es"]
    show ?thesis by (simp add: eq)
  next
    case 3
    then obtain b1 b2 b3 where eq: "e = [b1, b2, b3]"
      by (cases e rule: utf8_form_3.cases) simp_all
    from Cons.IH [OF es, of "pre @ e"]
      from_step3 [OF form_3_group [OF 3 [unfolded eq]], of pre "concat es"]
    show ?thesis by (simp add: eq)
  next
    case 4
    then obtain b1 b2 b3 b4 where eq: "e = [b1, b2, b3, b4]"
      by (cases e rule: utf8_form_4_low.cases) simp_all
    from Cons.IH [OF es, of "pre @ e"] from_step4 [OF 4 [unfolded eq], of pre "concat es"]
    show ?thesis by (simp add: eq)
  qed
qed


lemma drop_1: "i < length xs \<Longrightarrow> drop i xs = xs ! i # drop (i + 1) xs"
  by (simp add: Cons_nth_drop_Suc)

lemma drop_2: "i + 2 \<le> length xs \<Longrightarrow> drop i xs = xs ! i # xs ! (i + 1) # drop (i + 2) xs"
  using drop_1 [of i xs] drop_1 [of "i + 1" xs] by (simp add: eval_nat_numeral)

lemma drop_3:
  "i + 3 \<le> length xs \<Longrightarrow>
   drop i xs = xs ! i # xs ! (i + 1) # xs ! (i + 2) # drop (i + 3) xs"
  using drop_2 [of i xs] drop_1 [of "i + 2" xs] by (simp add: eval_nat_numeral)

lemma drop_4:
  "i + 4 \<le> length xs \<Longrightarrow>
   drop i xs = xs ! i # xs ! (i + 1) # xs ! (i + 2) # xs ! (i + 3) # drop (i + 4) xs"
  using drop_3 [of i xs] drop_1 [of "i + 3" xs] by (simp add: eval_nat_numeral)

lemma accepted_wide:
  "IsIntactUtf8_from u8 i \<Longrightarrow> i \<le> length u8 \<Longrightarrow>
   \<exists>es. drop i u8 = concat es \<and> list_all wide_encoding es"
proof (induction "length u8 - i" arbitrary: i rule: less_induct)
  case less
  show ?case
  proof (cases "i = length u8")
    case True
    then have "drop i u8 = concat [] \<and> list_all wide_encoding []" by simp
    then show ?thesis by blast
  next
    case False
    with less.prems have il: "i < length u8" by simp
    let ?b1 = "u8 ! i"
    have next_unit: "\<exists>es. drop i u8 = concat es \<and> list_all wide_encoding es"
      if k: "0 < k" "i + k \<le> length u8" and r: "IsIntactUtf8_from u8 (i + k)"
        and d: "drop i u8 = e @ drop (i + k) u8" and w: "wide_encoding e" for k e
    proof -
      from k il have "length u8 - (i + k) < length u8 - i" by simp
      from less.hyps [OF this r k(2)] obtain es where
        "drop (i + k) u8 = concat es" "list_all wide_encoding es" by blast
      with d w have "drop i u8 = concat (e # es) \<and> list_all wide_encoding (e # es)" by simp
      then show ?thesis by blast
    qed
    from less.prems(1) il have body:
      "if ?b1 \<le> 0x7F then IsIntactUtf8_from u8 (i + 1)
       else if drop_bit 5 ?b1 = 0x6 then
         (2 \<le> length u8 - i \<and> cont (u8 ! (i + 1)) \<and> (?b1 > 0xC0 \<or> u8 ! (i + 1) > 0x80) \<and>
          IsIntactUtf8_from u8 (i + 2))
       else if drop_bit 4 ?b1 = 0xE then
         (3 \<le> length u8 - i \<and> scalar3_ok (scalar3 ?b1 (u8 ! (i + 1)) (u8 ! (i + 2))) \<and>
          IsIntactUtf8_from u8 (i + 3))
       else if drop_bit 3 ?b1 = 0x1E then
         (4 \<le> length u8 - i \<and> ?b1 AND 0x7 \<le> 0x4 \<and> cont (u8 ! (i + 1)) \<and>
          cont (u8 ! (i + 2)) \<and> cont (u8 ! (i + 3)) \<and> IsIntactUtf8_from u8 (i + 4))
       else False"
      by (subst (asm) IsIntactUtf8_from.simps)
        (simp add: Let_def cont_def scalar3_ok_def scalar3_def eval_nat_numeral split: if_splits)
    show ?thesis
    proof (cases "?b1 \<le> 0x7F")
      case True
      with body have r: "IsIntactUtf8_from u8 (i + 1)" by simp
      have w: "wide_encoding [?b1]" using True by (simp add: wide_encoding_def)
      from il drop_1 [OF il] have d: "drop i u8 = [?b1] @ drop (i + 1) u8" by simp
      from il show ?thesis by (intro next_unit [OF _ _ r d w]) simp_all
    next
      case n1: False
      show ?thesis
      proof (cases "drop_bit 5 ?b1 = 0x6")
        case True
        with body n1 have len: "2 \<le> length u8 - i" and c: "cont (u8 ! (i + 1))"
          and gt: "?b1 > 0xC0 \<or> u8 ! (i + 1) > 0x80" and r: "IsIntactUtf8_from u8 (i + 2)"
          by simp_all
        from gt have "\<not> (?b1 = 0xC0 \<and> u8 ! (i + 1) = 0x80)" by auto
        with True c have w: "wide_encoding [?b1, u8 ! (i + 1)]"
          by (simp add: wide_encoding_def)
        from len have l: "i + 2 \<le> length u8" by simp
        from drop_2 [OF l] have d: "drop i u8 = [?b1, u8 ! (i + 1)] @ drop (i + 2) u8" by simp
        from l show ?thesis by (intro next_unit [OF _ _ r d w]) simp_all
      next
        case n2: False
        show ?thesis
        proof (cases "drop_bit 4 ?b1 = 0xE")
          case True
          with body n1 n2 have len: "3 \<le> length u8 - i"
            and ok: "scalar3_ok (scalar3 ?b1 (u8 ! (i + 1)) (u8 ! (i + 2)))"
            and r: "IsIntactUtf8_from u8 (i + 3)"
            by simp_all
          from True ok have w: "wide_encoding [?b1, u8 ! (i + 1), u8 ! (i + 2)]"
            by (simp add: wide_encoding_def)
          from len have l: "i + 3 \<le> length u8" by simp
          from drop_3 [OF l]
          have d: "drop i u8 = [?b1, u8 ! (i + 1), u8 ! (i + 2)] @ drop (i + 3) u8" by simp
          from l show ?thesis by (intro next_unit [OF _ _ r d w]) simp_all
        next
          case n3: False
          with body n1 n2 have l4: "drop_bit 3 ?b1 = 0x1E" and len: "4 \<le> length u8 - i"
            and p: "?b1 AND 0x7 \<le> 0x4" and c: "cont (u8 ! (i + 1))" "cont (u8 ! (i + 2))"
              "cont (u8 ! (i + 3))"
            and r: "IsIntactUtf8_from u8 (i + 4)"
            by (simp_all split: if_splits)
          then have w: "wide_encoding [?b1, u8 ! (i + 1), u8 ! (i + 2), u8 ! (i + 3)]"
            by (simp add: wide_encoding_def)
          from len have l: "i + 4 \<le> length u8" by simp
          from drop_4 [OF l]
          have d: "drop i u8 = [?b1, u8 ! (i + 1), u8 ! (i + 2), u8 ! (i + 3)] @ drop (i + 4) u8"
            by simp
          from l show ?thesis by (intro next_unit [OF _ _ r d w]) simp_all
        qed
      qed
    qed
  qed
qed


text \<open>
  Claim C3, as amended. \<^verbatim>\<open>IsIntactUtf8(b)\<close> returns true whenever \<open>b\<close> is a concatenation
  of encodings that are valid under section 4.3 and whose 4-byte forms have a second byte
  with payload at most \<^verbatim>\<open>0x0F\<close>; whenever it returns true, \<open>b\<close> is a concatenation of
  1-byte forms, 2-byte forms valid under section 4.3, 3-byte groups led by \<^verbatim>\<open>1110xxxx\<close>
  whose decoded scalar is in \<open>[0x800, 0xFFFF]\<close> outside the surrogates, and 4-byte forms
  valid under section 4.3. In particular every 4-byte form whose leading byte's payload is at
  most \<^verbatim>\<open>0x04\<close>, whose three continuation bytes begin \<^verbatim>\<open>10xxxxxx\<close> and whose second
  byte's payload is at most \<^verbatim>\<open>0x0F\<close> is accepted.
\<close>

theorem IsIntactUtf8_brackets:
  "(list_all narrow_encoding es \<longrightarrow> IsIntactUtf8 (concat es)) \<and>
   (IsIntactUtf8 b \<longrightarrow> (\<exists>es. b = concat es \<and> list_all wide_encoding es)) \<and>
   (utf8_form_4_low [b1, b2, b3, b4] \<longrightarrow> IsIntactUtf8 [b1, b2, b3, b4])"
proof (intro conjI impI)
  assume "list_all narrow_encoding es"
  from narrow_accepted [OF this, of "[]"] show "IsIntactUtf8 (concat es)"
    by (simp add: IsIntactUtf8_def)
next
  assume "IsIntactUtf8 b"
  then have "IsIntactUtf8_from b 0" by (simp add: IsIntactUtf8_def)
  from accepted_wide [OF this] show "\<exists>es. b = concat es \<and> list_all wide_encoding es"
    by simp
next
  assume "utf8_form_4_low [b1, b2, b3, b4]"
  then have "list_all narrow_encoding [[b1, b2, b3, b4]]"
    by (simp add: narrow_encoding_def)
  from narrow_accepted [OF this, of "[]"] show "IsIntactUtf8 [b1, b2, b3, b4]"
    by (simp add: IsIntactUtf8_def)
qed

text \<open>Witness for C3: \<^verbatim>\<open>a\<close>, U+00A9, U+6C49 and U+10FFFF in a row.\<close>

theorem IsIntactUtf8_brackets_witness:
  "list_all narrow_encoding [[0x61], [0xC2, 0xA9], [0xE6, 0xB1, 0x89], [0xF4, 0x8F, 0xBF, 0xBF]] \<and>
   IsIntactUtf8 [0x61, 0xC2, 0xA9, 0xE6, 0xB1, 0x89, 0xF4, 0x8F, 0xBF, 0xBF] \<and>
   (\<exists>es. [0x61, 0xC2, 0xA9, 0xE6, 0xB1, 0x89, 0xF4, 0x8F, 0xBF, 0xBF] = concat es \<and>
         list_all wide_encoding es) \<and>
   utf8_form_4_low [0xF4, 0x8F, 0xBF, 0xBF] \<and>
   IsIntactUtf8 [0xF4, 0x8F, 0xBF, 0xBF]"
proof -
  let ?es = "[[0x61], [0xC2, 0xA9], [0xE6, 0xB1, 0x89], [0xF4, 0x8F, 0xBF, 0xBF]] :: byte list list"
  let ?b = "[0x61, 0xC2, 0xA9, 0xE6, 0xB1, 0x89, 0xF4, 0x8F, 0xBF, 0xBF] :: byte list"
  have f4: "utf8_form_4_low [0xF4, 0x8F, 0xBF, 0xBF]"
    by (simp add: cont_def)
  have n: "list_all narrow_encoding ?es"
    by (simp add: narrow_encoding_def cont_def scalar3_def scalar3_ok_def)
  note t = IsIntactUtf8_brackets [of ?es ?b "0xF4" "0x8F" "0xBF" "0xBF"]
  from t n have a: "IsIntactUtf8 ?b" by simp
  from t a have w: "\<exists>es. ?b = concat es \<and> list_all wide_encoding es" by blast
  from t f4 have a4: "IsIntactUtf8 [0xF4, 0x8F, 0xBF, 0xBF]" by blast
  from n a w f4 a4 show ?thesis by blast
qed

text \<open>
  Counterexample for C3 as stated: \<^verbatim>\<open>F4 90 80 80\<close> is a 4-byte form whose leading byte's
  payload is \<^verbatim>\<open>0x04\<close> and whose continuation bytes begin \<^verbatim>\<open>10xxxxxx\<close>, so it is valid
  under the rules of section 4.3 as written, and \<^verbatim>\<open>IsIntactUtf8\<close> rejects it (it encodes
  U+110000; the repository's test expects the rejection).
\<close>

theorem IsIntactUtf8_above_max_counterexample:
  "utf8_form_4 [0xF4, 0x90, 0x80, 0x80] \<and> spec_valid_utf8 [0xF4, 0x90, 0x80, 0x80] \<and>
   \<not> IsIntactUtf8 [0xF4, 0x90, 0x80, 0x80]"
proof -
  have f: "utf8_form_4 [0xF4, 0x90, 0x80, 0x80]" by (simp add: cont_def)
  then have "[0xF4, 0x90, 0x80, 0x80] = concat [[0xF4, 0x90, 0x80, 0x80 :: byte]] \<and>
             list_all spec_valid_encoding [[0xF4, 0x90, 0x80, 0x80]]"
    by (simp add: spec_valid_encoding_def)
  then have v: "spec_valid_utf8 [0xF4, 0x90, 0x80, 0x80]"
    unfolding spec_valid_utf8_def by blast
  have r: "\<not> IsIntactUtf8 [0xF4, 0x90, 0x80, 0x80]"
    by (simp add: IsIntactUtf8_def IsIntactUtf8_from.simps)
  from f v r show ?thesis by blast
qed

text \<open>
  Two inputs on which the validator and section 4.3 differ otherwise: a 3-byte group whose
  second and third bytes are not continuation bytes is accepted, and the 4-byte encoding
  of U+1F604 (the one \<^verbatim>\<open>Unicode2utf8\<close> produces) is rejected.
\<close>

lemma IsIntactUtf8_other_differences:
  "IsIntactUtf8 [0xE1, 0x41, 0x41] \<and> \<not> spec_valid_encoding [0xE1, 0x41, 0x41] \<and>
   \<not> IsIntactUtf8 [0xF0, 0x9F, 0x98, 0x84] \<and> spec_valid_encoding [0xF0, 0x9F, 0x98, 0x84]"
  by (simp add: IsIntactUtf8_def IsIntactUtf8_from.simps spec_valid_encoding_def cont_def)

section \<open>Frame codec: header bytes and lengths\<close>

lemma bit_nat_below: "(m::nat) < 2 ^ k \<Longrightarrow> bit m n \<Longrightarrow> n < k"
proof -
  assume a: "m < 2 ^ k" and b: "bit m n"
  from a have "take_bit k m = m" by (simp add: take_bit_nat_eq_self_iff)
  then have "bit (take_bit k m) n" using b by simp
  then show "n < k" by (simp add: bit_take_bit_iff)
qed

lemma bit_le_1: "(b :: byte) \<le> 1 \<Longrightarrow> bit b n \<longleftrightarrow> n = 0 \<and> b = 1"
proof -
  assume "b \<le> 1"
  then have "unat b \<le> 1" by (simp add: word_le_nat_alt)
  then have "unat b = 0 \<or> unat b = 1" by linarith
  then have "b = 0 \<or> b = 1" by (simp add: word_unat_eq_iff)
  then show ?thesis by (auto simp: bit_simps)
qed

lemma byte0_fields:
  fixes fin r1 r2 r3 op :: byte
  assumes "fin \<le> 1" "r1 \<le> 1" "r2 \<le> 1" "r3 \<le> 1" "op \<le> 0xF"
  defines "x \<equiv> push_bit 7 fin OR push_bit 6 r1 OR push_bit 5 r2 OR push_bit 4 r3 OR op"
  shows "drop_bit 7 x = fin" "drop_bit 7 (push_bit 1 x) = r1" "drop_bit 7 (push_bit 2 x) = r2"
    "drop_bit 7 (push_bit 3 x) = r3" "x AND 0xF = op"
proof -
  from assms(5) have "op < 2 ^ 4" by (simp add: word_le_nat_alt word_less_nat_alt)
  then have h: "bit op n \<Longrightarrow> n < 4" for n by (rule bit_below)
  note b = bit_le_1 [OF assms(1)] bit_le_1 [OF assms(2)] bit_le_1 [OF assms(3)]
    bit_le_1 [OF assms(4)]
  have bx: "bit x n \<longleftrightarrow>
      (n = 7 \<and> fin = 1) \<or> (n = 6 \<and> r1 = 1) \<or> (n = 5 \<and> r2 = 1) \<or> (n = 4 \<and> r3 = 1) \<or> bit op n"
    for n unfolding x_def by (auto simp: bit_simps b dest: h)
  have sh: "bit (drop_bit 7 (push_bit j x)) n \<longleftrightarrow> n = 0 \<and> j \<le> 7 \<and> bit x (7 - j)" for j n
    by (auto simp: bit_simps)
  show "drop_bit 7 x = fin"
    by (rule bit_word_eqI) (auto simp: bit_simps bx b dest: h)
  show "drop_bit 7 (push_bit 1 x) = r1"
  proof (rule bit_word_eqI)
    fix n
    have "bit (drop_bit 7 (push_bit 1 x)) n \<longleftrightarrow> n = 0 \<and> bit x 6"
      using sh [of 1 n] by simp
    then show "bit (drop_bit 7 (push_bit 1 x)) n \<longleftrightarrow> bit r1 n"
      using h [of 6] by (auto simp: bx b)
  qed
  show "drop_bit 7 (push_bit 2 x) = r2"
  proof (rule bit_word_eqI)
    fix n
    have "bit (drop_bit 7 (push_bit 2 x)) n \<longleftrightarrow> n = 0 \<and> bit x 5"
      using sh [of 2 n] by simp
    then show "bit (drop_bit 7 (push_bit 2 x)) n \<longleftrightarrow> bit r2 n"
      using h [of 5] by (auto simp: bx b)
  qed
  show "drop_bit 7 (push_bit 3 x) = r3"
  proof (rule bit_word_eqI)
    fix n
    have "bit (drop_bit 7 (push_bit 3 x)) n \<longleftrightarrow> n = 0 \<and> bit x 4"
      using sh [of 3 n] by simp
    then show "bit (drop_bit 7 (push_bit 3 x)) n \<longleftrightarrow> bit r3 n"
      using h [of 4] by (auto simp: bx b)
  qed
  show "x AND 0xF = op"
    by (rule bit_word_eqI) (auto simp: bit_simps bit_int_consts bx dest: h)
qed

lemma byte1_fields:
  fixes m :: byte
  assumes "m \<le> 1" "n \<le> 127"
  defines "y \<equiv> push_bit 7 m OR of_nat n"
  shows "drop_bit 7 y = m" "y AND 0x7F = of_nat n"
proof -
  from assms(2) have "n < 2 ^ 7" by simp
  then have h: "bit n k \<Longrightarrow> k < 7" for k by (rule bit_nat_below)
  note b = bit_le_1 [OF assms(1)]
  show "drop_bit 7 y = m"
    unfolding y_def by (rule bit_word_eqI) (auto simp: bit_simps b dest: h)
  show "y AND 0x7F = of_nat n"
    unfolding y_def by (rule bit_word_eqI) (auto simp: bit_simps bit_int_consts b dest: h)
qed

lemma len7:
  assumes "n \<le> 127"
  shows "ucast (of_nat n :: byte) = (of_nat n :: uint64)" "unat (of_nat n :: byte) = n"
proof -
  from assms have "n < 2 ^ 7" by simp
  then have h: "bit n k \<Longrightarrow> k < 7" for k by (rule bit_nat_below)
  show "ucast (of_nat n :: byte) = (of_nat n :: uint64)"
    by (rule bit_word_eqI) (auto simp: bit_simps dest: h)
  show "unat (of_nat n :: byte) = n"
    using assms by (simp add: unat_of_nat)
qed

lemma len16:
  assumes "n \<le> 65535"
  shows "ucast (push_bit 8 (ucast (of_nat (drop_bit 8 n) :: byte)) OR ucast (of_nat n :: byte) :: uint16)
         = (of_nat n :: uint64)" (is "?l = ?r")
proof (rule bit_word_eqI)
  fix k assume "k < LENGTH(64)"
  from assms have "n < 2 ^ 16" by simp
  then have h: "bit n j \<Longrightarrow> j < 16" for j by (rule bit_nat_below)
  consider "k < 8" | "8 \<le> k" "k < 16" | "16 \<le> k" by linarith
  then show "bit ?l k \<longleftrightarrow> bit ?r k"
  proof cases
    case 1
    then show ?thesis by (auto simp: bit_simps)
  next
    case 2
    then show ?thesis by (auto simp: bit_simps)
  next
    case 3
    then show ?thesis using h [of k] by (auto simp: bit_simps)
  qed
qed

lemma bit_byte_of_nat:
  "bit (push_bit j (ucast (of_nat (drop_bit j n) :: byte)) :: uint64) k \<longleftrightarrow>
   j \<le> k \<and> k < j + 8 \<and> k < 64 \<and> bit n k"
  by (auto simp: bit_simps)

lemma bit_byte0_of_nat: "bit (ucast (of_nat n :: byte) :: uint64) k \<longleftrightarrow> k < 8 \<and> bit n k"
  by (auto simp: bit_simps)

lemma bit_u64_of_nat: "bit (of_nat n :: uint64) k \<longleftrightarrow> k < 64 \<and> bit n k"
  by (auto simp: bit_simps)

lemma len64:
  "push_bit 56 (ucast (of_nat (drop_bit 56 n) :: byte)) OR
   push_bit 48 (ucast (of_nat (drop_bit 48 n) :: byte)) OR
   push_bit 40 (ucast (of_nat (drop_bit 40 n) :: byte)) OR
   push_bit 32 (ucast (of_nat (drop_bit 32 n) :: byte)) OR
   push_bit 24 (ucast (of_nat (drop_bit 24 n) :: byte)) OR
   push_bit 16 (ucast (of_nat (drop_bit 16 n) :: byte)) OR
   push_bit 8 (ucast (of_nat (drop_bit 8 n) :: byte)) OR
   ucast (of_nat n :: byte) = (of_nat n :: uint64)" (is "?l = ?r")
proof (rule bit_word_eqI)
  fix k assume "k < LENGTH(64)"
  then have k: "k < 64" by simp
  show "bit ?l k \<longleftrightarrow> bit ?r k"
    unfolding bit_or_iff bit_byte_of_nat bit_byte0_of_nat bit_u64_of_nat
    using k by auto
qed

lemma bit_byte_of_word:
  "bit (push_bit j (ucast (ucast (drop_bit j mk) :: byte)) :: uint32) k \<longleftrightarrow>
   j \<le> k \<and> k < j + 8 \<and> k < 32 \<and> bit (mk :: uint32) k"
  by (auto simp: bit_simps)

lemma bit_byte0_of_word: "bit (ucast (ucast mk :: byte) :: uint32) k \<longleftrightarrow> k < 8 \<and> bit (mk :: uint32) k"
  by (auto simp: bit_simps)

lemma key32:
  "push_bit 24 (ucast (ucast (drop_bit 24 mk) :: byte)) OR
   push_bit 16 (ucast (ucast (drop_bit 16 mk) :: byte)) OR
   push_bit 8 (ucast (ucast (drop_bit 8 mk) :: byte)) OR
   ucast (ucast mk :: byte) = (mk :: uint32)" (is "?l = ?r")
proof (rule bit_word_eqI)
  fix k assume "k < LENGTH(32)"
  then have k: "k < 32" by simp
  show "bit ?l k \<longleftrightarrow> bit ?r k"
    unfolding bit_or_iff bit_byte_of_word bit_byte0_of_word
    using k by auto
qed

section \<open>Frame codec: reading from a byte slice\<close>

lemma Read_bytes_reader:
  "hd_part \<noteq> [] \<Longrightarrow> length hd_part = k \<Longrightarrow>
   Read (bytes_reader (hd_part @ tl_part)) k = (hd_part, False, bytes_reader tl_part)"
  by (auto simp: bytes_reader_def)

lemma ReadBytesAsMath_loop_exact:
  "rest \<noteq> [] \<Longrightarrow> unat n + length rest = unat sz \<Longrightarrow>
   ReadBytesAsMath_loop (rest # others) sz n byts = (others, Inr (byts @ rest))"
proof (induction "length rest" arbitrary: rest n byts rule: less_induct)
  case less
  have szb: "unat sz < 2 ^ 64" using unsigned_less [of sz] by simp
  show ?case
  proof (cases "length rest \<le> 512")
    case True
    have "unat (n + of_nat (length rest)) = unat sz"
      using less.prems(2) szb by (simp add: unat_word_ariths unat_of_nat)
    then have eq: "n + of_nat (length rest) = sz" by (simp add: word_unat_eq_iff)
    show ?thesis
      using True less.prems(1) eq
      by (subst ReadBytesAsMath_loop.simps) (simp add: Let_def)
  next
    case False
    then have long: "512 < length rest" by simp
    have u: "unat (n + 512) = unat n + 512"
      using less.prems(2) szb long by (simp add: unat_word_ariths)
    then have ne: "n + 512 \<noteq> sz"
      using less.prems(2) long by (auto simp: word_unat_eq_iff)
    have ih: "ReadBytesAsMath_loop (drop 512 rest # others) sz (n + 512) (byts @ take 512 rest)
              = (others, Inr ((byts @ take 512 rest) @ drop 512 rest))"
      using less.prems long u by (intro less.hyps) simp_all
    from long have rne: "rest \<noteq> []" by auto
    show ?thesis
      using long ne ih rne
      by (subst ReadBytesAsMath_loop.simps) (simp add: Let_def min_def)
  qed
qed

lemma ReadBytesAsMath_exact:
  "pld \<noteq> [] \<Longrightarrow> length pld < 2 ^ 64 \<Longrightarrow>
   ReadBytesAsMath (bytes_reader pld) (of_nat (length pld)) = ([], Inr pld)"
  using ReadBytesAsMath_loop_exact [of pld 0 "of_nat (length pld)" "[]" "[]"]
  by (simp add: ReadBytesAsMath_def bytes_reader_def unat_of_nat)

lemma CheckOpcode_le: "CheckOpcode c \<Longrightarrow> c \<le> 0xF"
  by (auto simp: CheckOpcode_def OpcodeContinue_def OpcodeText_def OpcodeBinary_def
      OpcodeClose_def OpcodePing_def OpcodePong_def)

text \<open>The first two bytes, decoded.\<close>

lemma FromBufReader_first_two_gen:
  assumes "drop_bit 7 b0 = fin" "drop_bit 7 (push_bit 1 b0) = r1" "drop_bit 7 (push_bit 2 b0) = r2"
    "drop_bit 7 (push_bit 3 b0) = r3" "b0 AND 0xF = op" "CheckOpcode op"
    "drop_bit 7 b1 = m" "b1 AND 0x7F = pl"
  shows "FromBufReader f (bytes_reader ([b0, b1] @ tl_part)) mx =
         (case read_payload_len
                 (f\<lparr>FIN := fin, RSV1 := r1, RSV2 := r2, RSV3 := r3, Opcode := op, MASK := m\<rparr>)
                 (bytes_reader tl_part) pl of
            (f3, r3, Some e) \<Rightarrow> (f3, r3, Some e)
          | (f3, r3, None) \<Rightarrow>
              if PayloadLen f3 > mx then (f3, r3, Some ErrFrameTooLarge)
              else
                (case read_masking_key f3 r3 of
                   (f4, r4, mkb, Some e) \<Rightarrow> (f4, r4, Some e)
                 | (f4, r4, mkb, None) \<Rightarrow> read_payload f4 r4 pl mkb))"
proof -
  have rd: "Read (bytes_reader ([b0, b1] @ tl_part)) 2 = ([b0, b1], False, bytes_reader tl_part)"
    by (rule Read_bytes_reader) simp_all
  show ?thesis
    unfolding FromBufReader_def rd
    using assms by (simp add: Let_def)
qed

lemma FromBufReader_first_two:
  assumes bits: "fin \<le> 1" "r1 \<le> 1" "r2 \<le> 1" "r3 \<le> 1" and op: "CheckOpcode op"
    and m: "m \<le> 1" and n: "n \<le> 127"
  shows "FromBufReader f
           (bytes_reader ([push_bit 7 fin OR push_bit 6 r1 OR push_bit 5 r2 OR push_bit 4 r3 OR op,
                           push_bit 7 m OR of_nat n] @ tl_part)) mx =
         (case read_payload_len
                 (f\<lparr>FIN := fin, RSV1 := r1, RSV2 := r2, RSV3 := r3, Opcode := op, MASK := m\<rparr>)
                 (bytes_reader tl_part) (of_nat n) of
            (f3, r3, Some e) \<Rightarrow> (f3, r3, Some e)
          | (f3, r3, None) \<Rightarrow>
              if PayloadLen f3 > mx then (f3, r3, Some ErrFrameTooLarge)
              else
                (case read_masking_key f3 r3 of
                   (f4, r4, mkb, Some e) \<Rightarrow> (f4, r4, Some e)
                 | (f4, r4, mkb, None) \<Rightarrow> read_payload f4 r4 (of_nat n) mkb))"
  by (rule FromBufReader_first_two_gen
      [OF byte0_fields [OF bits CheckOpcode_le [OF op]] op byte1_fields [OF m n]])


text \<open>The extended payload length, decoded from what \<^verbatim>\<open>ToBytes\<close> writes.\<close>

lemma read_payload_len_7:
  assumes "n \<le> 125"
  shows "read_payload_len f r (of_nat n) = (f\<lparr>PayloadLen := of_nat n\<rparr>, r, None)"
proof -
  from assms have n: "n \<le> 127" by simp
  have "unat (of_nat n :: byte) \<le> 125" using assms len7(2) [OF n] by simp
  then have le: "(of_nat n :: byte) \<le> 125" by (simp add: word_le_nat_alt)
  show ?thesis using le by (simp add: read_payload_len_def len7(1) [OF n])
qed

lemma read_payload_len_16:
  assumes "n \<le> 65535"
  shows "read_payload_len f
           (bytes_reader ([of_nat (drop_bit 8 n), of_nat n] @ tl_part)) (of_nat (126 :: nat)) =
         (f\<lparr>PayloadLen := of_nat n\<rparr>, bytes_reader tl_part, None)"
proof -
  have rd: "Read (bytes_reader ([of_nat (drop_bit 8 n), of_nat n] @ tl_part)) 2 =
            ([of_nat (drop_bit 8 n), of_nat n], False, bytes_reader tl_part)"
    by (rule Read_bytes_reader) simp_all
  show ?thesis
    unfolding read_payload_len_def rd
    using len16 [OF assms] by (simp add: Let_def)
qed

lemma read_payload_len_64:
  "read_payload_len f
     (bytes_reader ([of_nat (drop_bit 56 n), of_nat (drop_bit 48 n), of_nat (drop_bit 40 n),
                     of_nat (drop_bit 32 n), of_nat (drop_bit 24 n), of_nat (drop_bit 16 n),
                     of_nat (drop_bit 8 n), of_nat n] @ tl_part)) (of_nat (127 :: nat)) =
   (f\<lparr>PayloadLen := of_nat n\<rparr>, bytes_reader tl_part, None)"
proof -
  let ?ext = "[of_nat (drop_bit 56 n), of_nat (drop_bit 48 n), of_nat (drop_bit 40 n),
               of_nat (drop_bit 32 n), of_nat (drop_bit 24 n), of_nat (drop_bit 16 n),
               of_nat (drop_bit 8 n), of_nat n] :: byte list"
  have rd: "Read (bytes_reader (?ext @ tl_part)) 8 = (?ext, False, bytes_reader tl_part)"
    by (rule Read_bytes_reader) simp_all
  show ?thesis
    unfolding read_payload_len_def rd
    using len64 [of n] by (simp add: Let_def)
qed

text \<open>The masking key and the payload, decoded from what \<^verbatim>\<open>ToBytes\<close> writes.\<close>

lemma length_MakeMaskingKey: "length (MakeMaskingKey rnd) = 4"
  by (simp add: MakeMaskingKey_def Let_def)

lemma read_masking_key_1:
  assumes "MASK f = 1"
  shows "read_masking_key f (bytes_reader (MakeMaskingKey rnd @ tl_part)) =
         (f\<lparr>MaskingKey := fst (snd rnd (fst rnd 35))\<rparr>, bytes_reader tl_part,
          MakeMaskingKey rnd, None)"
proof -
  have rd: "Read (bytes_reader (MakeMaskingKey rnd @ tl_part)) 4 =
            (MakeMaskingKey rnd, False, bytes_reader tl_part)"
    by (rule Read_bytes_reader) (simp_all add: MakeMaskingKey_def Let_def)
  show ?thesis
    unfolding read_masking_key_def rd
    using assms key32 [of "fst (snd rnd (fst rnd 35))"]
    by (simp add: MakeMaskingKey_def Let_def)
qed

lemma read_masking_key_0:
  assumes "MASK f = 0"
  shows "read_masking_key f r = (f, r, [], None)"
  using assms by (simp add: read_masking_key_def)

lemma read_payload_exact:
  assumes "PayloadLen f = of_nat (length pld)" "length pld < 2 ^ 64" "pl > 0 \<longleftrightarrow> pld \<noteq> []"
  shows "read_payload f (bytes_reader pld) pl mkb =
         (f\<lparr>PayloadData := (if pld = [] then PayloadData f
                               else if MASK f = 1 then MaskData pld mkb else pld)\<rparr>,
          [], None)"
proof (cases "pld = []")
  case True
  with assms(3) show ?thesis by (simp add: read_payload_def bytes_reader_def)
next
  case False
  with assms(3) have "pl > 0" by simp
  then show ?thesis
    using False ReadBytesAsMath_exact [OF False assms(2)] assms(1)
    by (simp add: read_payload_def)
qed


text \<open>Decoding what \<^verbatim>\<open>ToBytes\<close> produced, from a reader over exactly these bytes.\<close>

lemma ToBytes_bytes:
  "snd (ToBytes rnd F msk) =
     Inr ([push_bit 7 (FIN F) OR push_bit 6 (RSV1 F) OR push_bit 5 (RSV2 F) OR
           push_bit 4 (RSV3 F) OR Opcode F,
           push_bit 7 (if msk then 1 else MASK F) OR
           of_nat (if length (PayloadData F) \<le> 125 then length (PayloadData F)
                   else if length (PayloadData F) \<le> 65535 then 126 else 127)] @
          (if length (PayloadData F) \<le> 125 then []
           else if length (PayloadData F) \<le> 65535 then
             [of_nat (drop_bit 8 (length (PayloadData F))), of_nat (length (PayloadData F))]
           else
             [of_nat (drop_bit 56 (length (PayloadData F))),
              of_nat (drop_bit 48 (length (PayloadData F))),
              of_nat (drop_bit 40 (length (PayloadData F))),
              of_nat (drop_bit 32 (length (PayloadData F))),
              of_nat (drop_bit 24 (length (PayloadData F))),
              of_nat (drop_bit 16 (length (PayloadData F))),
              of_nat (drop_bit 8 (length (PayloadData F))),
              of_nat (length (PayloadData F))]) @
          (if msk then MakeMaskingKey rnd else []) @ PayloadData F)"
proof -
  have top: "(w :: uint64) \<le> 0xFFFFFFFFFFFFFFFF" for w
  proof -
    have "unat w < 2 ^ 64" using unsigned_less [of w] by simp
    then show ?thesis by (simp add: word_le_nat_alt)
  qed
  show ?thesis by (simp add: ToBytes_def Let_def top)
qed

lemma decode_encode:
  assumes bits: "FIN F \<le> 1" "RSV1 F \<le> 1" "RSV2 F \<le> 1" "RSV3 F \<le> 1"
    and op: "CheckOpcode (Opcode F)"
    and m0: "msk \<or> MASK F = 0"
    and len: "length (PayloadData F) < 2 ^ 64"
    and mx: "of_nat (length (PayloadData F)) \<le> mx"
  shows "\<exists>bs. snd (ToBytes rnd F msk) = Inr bs \<and>
           FromBufReader f (bytes_reader bs) mx =
           (f\<lparr>FIN := FIN F, RSV1 := RSV1 F, RSV2 := RSV2 F, RSV3 := RSV3 F,
               Opcode := Opcode F, MASK := (if msk then 1 else 0),
               PayloadLen := of_nat (length (PayloadData F)),
               MaskingKey := (if msk then fst (snd rnd (fst rnd 35)) else MaskingKey f),
               PayloadData :=
                 (if PayloadData F = [] then PayloadData f
                  else if msk then MaskData (PayloadData F) (MakeMaskingKey rnd)
                  else PayloadData F)\<rparr>,
            [], None)"
proof -
  let ?pld = "PayloadData F"
  let ?n = "length ?pld"
  let ?m = "(if msk then 1 else 0) :: byte"
  let ?key = "if msk then MakeMaskingKey rnd else []"
  let ?f2 = "f\<lparr>FIN := FIN F, RSV1 := RSV1 F, RSV2 := RSV2 F, RSV3 := RSV3 F,
                Opcode := Opcode F, MASK := ?m\<rparr>"
  let ?f3 = "?f2\<lparr>PayloadLen := of_nat ?n\<rparr>"
  have mm: "(if msk then 1 else MASK F) = ?m" using m0 by auto
  have m1: "?m \<le> 1" by simp
  have nomax: "\<not> mx < of_nat ?n" using mx by simp
  have tail: "(if PayloadLen ?f3 > mx then (?f3, bytes_reader (?key @ ?pld), Some ErrFrameTooLarge)
               else
                 (case read_masking_key ?f3 (bytes_reader (?key @ ?pld)) of
                    (f4, r4, mkb, Some e) \<Rightarrow> (f4, r4, Some e)
                  | (f4, r4, mkb, None) \<Rightarrow> read_payload f4 r4 pl mkb)) =
              (?f3\<lparr>MaskingKey := (if msk then fst (snd rnd (fst rnd 35)) else MaskingKey f),
                    PayloadData :=
                      (if ?pld = [] then PayloadData f
                       else if msk then MaskData ?pld (MakeMaskingKey rnd) else ?pld)\<rparr>,
               [], None)"
    if pl: "pl > 0 \<longleftrightarrow> ?pld \<noteq> []" for pl
  proof (cases msk)
    case True
    then show ?thesis
      using read_masking_key_1 [of ?f3 rnd ?pld]
        read_payload_exact [of "?f3\<lparr>MaskingKey := fst (snd rnd (fst rnd 35))\<rparr>" ?pld pl
          "MakeMaskingKey rnd"] len pl nomax
      by simp
  next
    case False
    then show ?thesis
      using read_masking_key_0 [of ?f3 "bytes_reader ?pld"]
        read_payload_exact [of ?f3 ?pld pl "[]"] len pl nomax
      by simp
  qed
  consider (short) "?n \<le> 125" | (mid) "125 < ?n" "?n \<le> 65535" | (long) "65535 < ?n"
    by linarith
  then show ?thesis
  proof cases
    case short
    then have n7: "?n \<le> 127" by simp
    have pl: "(of_nat ?n :: byte) > 0 \<longleftrightarrow> ?pld \<noteq> []"
      using len7(2) [OF n7] by (simp add: word_less_nat_alt)
    have bs: "snd (ToBytes rnd F msk) =
              Inr ([push_bit 7 (FIN F) OR push_bit 6 (RSV1 F) OR push_bit 5 (RSV2 F) OR
                    push_bit 4 (RSV3 F) OR Opcode F, push_bit 7 ?m OR of_nat ?n] @ (?key @ ?pld))"
      using short by (simp add: ToBytes_bytes mm)
    have "FromBufReader f
            (bytes_reader ([push_bit 7 (FIN F) OR push_bit 6 (RSV1 F) OR push_bit 5 (RSV2 F) OR
                    push_bit 4 (RSV3 F) OR Opcode F, push_bit 7 ?m OR of_nat ?n] @ (?key @ ?pld))) mx =
          (?f3\<lparr>MaskingKey := (if msk then fst (snd rnd (fst rnd 35)) else MaskingKey f),
                PayloadData :=
                  (if ?pld = [] then PayloadData f
                   else if msk then MaskData ?pld (MakeMaskingKey rnd) else ?pld)\<rparr>,
           [], None)"
      unfolding FromBufReader_first_two [OF bits op m1 n7] read_payload_len_7 [OF short]
      by (simp only: prod.case option.case tail [OF pl])
    with bs show ?thesis by simp
  next
    case mid
    have pl: "(of_nat (126 :: nat) :: byte) > 0 \<longleftrightarrow> ?pld \<noteq> []"
      using mid by auto
    have bs: "snd (ToBytes rnd F msk) =
              Inr ([push_bit 7 (FIN F) OR push_bit 6 (RSV1 F) OR push_bit 5 (RSV2 F) OR
                    push_bit 4 (RSV3 F) OR Opcode F, push_bit 7 ?m OR of_nat (126 :: nat)] @
                   ([of_nat (drop_bit 8 ?n), of_nat ?n] @ (?key @ ?pld)))"
      using mid by (simp add: ToBytes_bytes mm)
    have "FromBufReader f
            (bytes_reader ([push_bit 7 (FIN F) OR push_bit 6 (RSV1 F) OR push_bit 5 (RSV2 F) OR
                    push_bit 4 (RSV3 F) OR Opcode F, push_bit 7 ?m OR of_nat (126 :: nat)] @
                   ([of_nat (drop_bit 8 ?n), of_nat ?n] @ (?key @ ?pld)))) mx =
          (?f3\<lparr>MaskingKey := (if msk then fst (snd rnd (fst rnd 35)) else MaskingKey f),
                PayloadData :=
                  (if ?pld = [] then PayloadData f
                   else if msk then MaskData ?pld (MakeMaskingKey rnd) else ?pld)\<rparr>,
           [], None)"
    proof -
      have A: "FromBufReader f
            (bytes_reader ([push_bit 7 (FIN F) OR push_bit 6 (RSV1 F) OR push_bit 5 (RSV2 F) OR
                    push_bit 4 (RSV3 F) OR Opcode F, push_bit 7 ?m OR of_nat (126 :: nat)] @
                   ([of_nat (drop_bit 8 ?n), of_nat ?n] @ (?key @ ?pld)))) mx =
          (case read_payload_len ?f2
                  (bytes_reader ([of_nat (drop_bit 8 ?n), of_nat ?n] @ (?key @ ?pld)))
                  (of_nat (126 :: nat)) of
            (f3, r3, Some e) \<Rightarrow> (f3, r3, Some e)
          | (f3, r3, None) \<Rightarrow>
              if PayloadLen f3 > mx then (f3, r3, Some ErrFrameTooLarge)
              else
                (case read_masking_key f3 r3 of
                   (f4, r4, mkb, Some e) \<Rightarrow> (f4, r4, Some e)
                 | (f4, r4, mkb, None) \<Rightarrow> read_payload f4 r4 (of_nat (126 :: nat)) mkb))"
        by (rule FromBufReader_first_two [OF bits op m1]) simp
      show ?thesis
        unfolding A read_payload_len_16 [OF mid(2)]
        by (simp only: prod.case option.case tail [OF pl])
    qed
    with bs show ?thesis by simp
  next
    case long
    have pl: "(of_nat (127 :: nat) :: byte) > 0 \<longleftrightarrow> ?pld \<noteq> []"
      using long by auto
    let ?ext = "[of_nat (drop_bit 56 ?n), of_nat (drop_bit 48 ?n), of_nat (drop_bit 40 ?n),
                 of_nat (drop_bit 32 ?n), of_nat (drop_bit 24 ?n), of_nat (drop_bit 16 ?n),
                 of_nat (drop_bit 8 ?n), of_nat ?n] :: byte list"
    have bs: "snd (ToBytes rnd F msk) =
              Inr ([push_bit 7 (FIN F) OR push_bit 6 (RSV1 F) OR push_bit 5 (RSV2 F) OR
                    push_bit 4 (RSV3 F) OR Opcode F, push_bit 7 ?m OR of_nat (127 :: nat)] @
                   (?ext @ (?key @ ?pld)))"
      using long by (simp add: ToBytes_bytes mm)
    have "FromBufReader f
            (bytes_reader ([push_bit 7 (FIN F) OR push_bit 6 (RSV1 F) OR push_bit 5 (RSV2 F) OR
                    push_bit 4 (RSV3 F) OR Opcode F, push_bit 7 ?m OR of_nat (127 :: nat)] @
                   (?ext @ (?key @ ?pld)))) mx =
          (?f3\<lparr>MaskingKey := (if msk then fst (snd rnd (fst rnd 35)) else MaskingKey f),
                PayloadData :=
                  (if ?pld = [] then PayloadData f
                   else if msk then MaskData ?pld (MakeMaskingKey rnd) else ?pld)\<rparr>,
           [], None)"
    proof -
      have A: "FromBufReader f
            (bytes_reader ([push_bit 7 (FIN F) OR push_bit 6 (RSV1 F) OR push_bit 5 (RSV2 F) OR
                    push_bit 4 (RSV3 F) OR Opcode F, push_bit 7 ?m OR of_nat (127 :: nat)] @
                   (?ext @ (?key @ ?pld)))) mx =
          (case read_payload_len ?f2 (bytes_reader (?ext @ (?key @ ?pld)))
                  (of_nat (127 :: nat)) of
            (f3, r3, Some e) \<Rightarrow> (f3, r3, Some e)
          | (f3, r3, None) \<Rightarrow>
              if PayloadLen f3 > mx then (f3, r3, Some ErrFrameTooLarge)
              else
                (case read_masking_key f3 r3 of
                   (f4, r4, mkb, Some e) \<Rightarrow> (f4, r4, Some e)
                 | (f4, r4, mkb, None) \<Rightarrow> read_payload f4 r4 (of_nat (127 :: nat)) mkb))"
        by (rule FromBufReader_first_two [OF bits op m1]) simp
      show ?thesis
        unfolding A read_payload_len_64
        by (simp only: prod.case option.case tail [OF pl])
    qed
    with bs show ?thesis by simp
  qed
qed

section \<open>Frame codec: results\<close>




text \<open>
  With \<^verbatim>\<open>mask=true\<close>, \<^verbatim>\<open>ToBytes\<close> sets the MASK bit and writes the key, and then the
  payload as it is: the decoder, which does apply the key, returns the payload XORed with it.
\<close>

lemma FromBufReader_ToBytes_masked:
  assumes "CheckOpcode (Opcode F)"
    and "FIN F \<le> 1" and "RSV1 F \<le> 1" and "RSV2 F \<le> 1" and "RSV3 F \<le> 1"
    and "length (PayloadData F) < 2 ^ 64"
    and "of_nat (length (PayloadData F)) \<le> maxPayloadLen"
    and "PayloadData F \<noteq> []"
  shows "\<exists>hdr F' r'. snd (ToBytes rnd F True) = Inr (hdr @ MakeMaskingKey rnd @ PayloadData F) \<and>
           FromBufReader Frame_zero (bytes_reader (hdr @ MakeMaskingKey rnd @ PayloadData F))
             maxPayloadLen = (F', r', None) \<and>
           PayloadData F' = MaskData (PayloadData F) (MakeMaskingKey rnd)"
proof -
  from decode_encode [OF assms(2-5) assms(1) _ assms(6,7), of True rnd Frame_zero] assms(8)
  obtain bs where bs: "snd (ToBytes rnd F True) = Inr bs"
    and d: "PayloadData (fst (FromBufReader Frame_zero (bytes_reader bs) maxPayloadLen)) =
            MaskData (PayloadData F) (MakeMaskingKey rnd)"
      "snd (snd (FromBufReader Frame_zero (bytes_reader bs) maxPayloadLen)) = None"
    by auto
  from bs obtain hdr where "bs = hdr @ MakeMaskingKey rnd @ PayloadData F"
    unfolding ToBytes_bytes by auto
  with bs d show ?thesis
    by (cases "FromBufReader Frame_zero (bytes_reader bs) maxPayloadLen") auto
qed

lemma MaskData_4:
  "MaskData [d0, d1, d2, d3] [k0, k1, k2, k3] = [d0 XOR k0, d1 XOR k1, d2 XOR k2, d3 XOR k3]"
  by (simp add: MaskData_def upt_rec)

lemma xor_same_iff: "(d :: byte) XOR k = d \<longleftrightarrow> k = 0"
proof
  assume "d XOR k = d"
  then have "d XOR (d XOR k) = d XOR d" by simp
  then show "k = 0" by (simp add: xor.assoc [symmetric])
qed simp

text \<open>
  Claim C1 at the frame that \<^verbatim>\<open>SendWhole\<close> builds for the text \<^verbatim>\<open>abcd\<close>, whatever
  \<^verbatim>\<open>math/rand\<close> returns: \<^verbatim>\<open>ToBytes\<close> with \<^verbatim>\<open>mask=true\<close> emits the MASK bit, the key
  and then the payload in clear; \<^verbatim>\<open>FromBufReader\<close> decodes these bytes without error to
  the payload XORed with the key; and that is the original payload only if the key is zero.
\<close>

theorem ToBytes_mask_leaves_payload_clear:
  "snd (ToBytes rnd frame_abcd True) =
     Inr ([0x81, 0x84] @ MakeMaskingKey rnd @ [0x61, 0x62, 0x63, 0x64]) \<and>
   snd (snd (FromBufReader Frame_zero
     (bytes_reader ([0x81, 0x84] @ MakeMaskingKey rnd @ [0x61, 0x62, 0x63, 0x64])) 125)) = None \<and>
   PayloadData (fst (FromBufReader Frame_zero
     (bytes_reader ([0x81, 0x84] @ MakeMaskingKey rnd @ [0x61, 0x62, 0x63, 0x64])) 125)) =
     MaskData [0x61, 0x62, 0x63, 0x64] (MakeMaskingKey rnd) \<and>
   (MaskData [0x61, 0x62, 0x63, 0x64] (MakeMaskingKey rnd) = PayloadData frame_abcd) =
     (fst (snd rnd (fst rnd 35)) = 0)"
proof -
  let ?mk = "fst (snd rnd (fst rnd 35))"
  have e: "snd (ToBytes rnd frame_abcd True) =
           Inr ([0x81, 0x84] @ MakeMaskingKey rnd @ [0x61, 0x62, 0x63, 0x64])"
    by (simp add: ToBytes_def frame_abcd_def Frame_zero_def OpcodeText_def Let_def)
  have v: "CheckOpcode (Opcode frame_abcd)" "FIN frame_abcd \<le> 1" "RSV1 frame_abcd \<le> 1"
    "RSV2 frame_abcd \<le> 1" "RSV3 frame_abcd \<le> 1" "length (PayloadData frame_abcd) < 2 ^ 64"
    "of_nat (length (PayloadData frame_abcd)) \<le> (125 :: uint64)"
    by (simp_all add: frame_abcd_def Frame_zero_def CheckOpcode_def OpcodeText_def
        OpcodeContinue_def)
  from decode_encode [OF v(2-5) v(1) _ v(6,7), of True rnd Frame_zero] e
  have d: "snd (snd (FromBufReader Frame_zero
       (bytes_reader ([0x81, 0x84] @ MakeMaskingKey rnd @ [0x61, 0x62, 0x63, 0x64])) 125)) = None"
    "PayloadData (fst (FromBufReader Frame_zero
       (bytes_reader ([0x81, 0x84] @ MakeMaskingKey rnd @ [0x61, 0x62, 0x63, 0x64])) 125)) =
     MaskData [0x61, 0x62, 0x63, 0x64] (MakeMaskingKey rnd)"
    by (auto simp: frame_abcd_def)
  have z: "(MaskData [0x61, 0x62, 0x63, 0x64] (MakeMaskingKey rnd) = PayloadData frame_abcd) =
           (?mk = 0)"
  proof
    assume "MaskData [0x61, 0x62, 0x63, 0x64] (MakeMaskingKey rnd) = PayloadData frame_abcd"
    then have "(ucast (drop_bit 24 ?mk) :: byte) = 0" "(ucast (drop_bit 16 ?mk) :: byte) = 0"
      "(ucast (drop_bit 8 ?mk) :: byte) = 0" "(ucast ?mk :: byte) = 0"
      by (simp_all add: MakeMaskingKey_def Let_def MaskData_4 frame_abcd_def xor_same_iff)
    with key32 [of ?mk] show "?mk = 0" by simp
  next
    assume "?mk = 0"
    then show "MaskData [0x61, 0x62, 0x63, 0x64] (MakeMaskingKey rnd) = PayloadData frame_abcd"
      by (simp add: MakeMaskingKey_def Let_def MaskData_4 frame_abcd_def)
  qed
  from e d z show ?thesis by blast
qed

text \<open>
  Claim C6 at two inputs, each a text frame followed in the same chunk by the two bytes of an
  empty text frame. In the first the length is coded as 126 with an extended length of zero:
  the decoded payload length is zero, yet the payload is read, the two bytes of the next
  frame are taken and the call fails. In the second the payload length is one: the read
  takes three bytes instead of one, and the call fails although the stream held the byte.
\<close>

theorem FromBufReader_reads_past_payload:
  "FromBufReader Frame_zero (bytes_reader [0x81, 0x7E, 0x00, 0x00, 0x81, 0x00]) 125 =
     (Frame_zero\<lparr>FIN := 1, Opcode := 1\<rparr>, [], Some ErrDeformedPayloadData) \<and>
   FromBufReader Frame_zero (bytes_reader [0x81, 0x01, 0x61, 0x81, 0x00]) 125 =
     (Frame_zero\<lparr>FIN := 1, Opcode := 1, PayloadLen := 1\<rparr>, [], Some ErrDeformedPayloadData)"
  by (simp add: FromBufReader_def read_payload_len_def read_masking_key_def
      read_payload_def ReadBytesAsMath_def ReadBytesAsMath_loop.simps bytes_reader_def Let_def
      CheckOpcode_def OpcodeText_def OpcodeContinue_def Frame_zero_def)

text \<open>
  Claim C9. \<^verbatim>\<open>MakeMaskingKey\<close> returns four bytes, the big-endian bytes of the first
  \<^verbatim>\<open>Uint32\<close> of a generator that it seeds with 35 itself: nothing but the generator's
  algorithm enters the result, so every call returns the same key, and every frame encoded
  with \<^verbatim>\<open>mask=true\<close> carries this same key in front of its payload.
\<close>

theorem MakeMaskingKey_same_every_call:
  "length (MakeMaskingKey rnd) = 4 \<and>
   MakeMaskingKey rnd =
     [ucast (drop_bit 24 (fst (snd rnd (fst rnd 35)))), ucast (drop_bit 16 (fst (snd rnd (fst rnd 35)))),
      ucast (drop_bit 8 (fst (snd rnd (fst rnd 35)))), ucast (fst (snd rnd (fst rnd 35)))] \<and>
   (\<forall>F. \<exists>hdr. snd (ToBytes rnd F True) = Inr (hdr @ MakeMaskingKey rnd @ PayloadData F))"
proof -
  have "\<exists>hdr. snd (ToBytes rnd F True) = Inr (hdr @ MakeMaskingKey rnd @ PayloadData F)" for F
    unfolding ToBytes_bytes by auto
  then show ?thesis by (simp add: MakeMaskingKey_def Let_def)
qed

section \<open>Accept key: results\<close>

text \<open>
  SHA-1 of the test message, in steps: the padded block, the message schedule in four runs of
  sixteen words, the eighty rounds in eight runs of ten, the digest and its base64 text.
\<close>

lemma accept_test_pad: "sha1_pad (bytes_of (''M/A='' @ keySuffixGUID)) = accept_test_block"
  by code_simp

lemma accept_test_w16: "map be32 (chunks 16 4 accept_test_block) = take 16 accept_test_schedule"
  by code_simp

lemma accept_test_sched_1:
  "fold (\<lambda>t w. w @ [rotl 1 (w ! (t - 3) XOR w ! (t - 8) XOR w ! (t - 14) XOR w ! (t - 16))])
     [16 ..< 32] (take 16 accept_test_schedule) = take 32 accept_test_schedule"
  by code_simp

lemma accept_test_sched_2:
  "fold (\<lambda>t w. w @ [rotl 1 (w ! (t - 3) XOR w ! (t - 8) XOR w ! (t - 14) XOR w ! (t - 16))])
     [32 ..< 48] (take 32 accept_test_schedule) = take 48 accept_test_schedule"
  by code_simp

lemma accept_test_sched_3:
  "fold (\<lambda>t w. w @ [rotl 1 (w ! (t - 3) XOR w ! (t - 8) XOR w ! (t - 14) XOR w ! (t - 16))])
     [48 ..< 64] (take 48 accept_test_schedule) = take 64 accept_test_schedule"
  by code_simp

lemma accept_test_sched_4:
  "fold (\<lambda>t w. w @ [rotl 1 (w ! (t - 3) XOR w ! (t - 8) XOR w ! (t - 14) XOR w ! (t - 16))])
     [64 ..< 80] (take 64 accept_test_schedule) = accept_test_schedule"
  by code_simp

lemma upt_16_80: "[16 ..< 80] = [16 ..< 32] @ [32 ..< 48] @ [48 ..< 64] @ [64 ..< 80]"
  by code_simp

lemma accept_test_sched: "sha1_schedule accept_test_block = accept_test_schedule"
  by (simp only: sha1_schedule_def accept_test_w16 upt_16_80 fold_append comp_apply
      accept_test_sched_1 accept_test_sched_2 accept_test_sched_3 accept_test_sched_4)

lemma accept_test_rounds_1:
  "fold (sha1_round accept_test_schedule) [0 ..< 10] sha1_init =
     (4139975633, 3000931299, 1773993634, 4235048205, 2182808279)"
  by code_simp

lemma accept_test_rounds_2:
  "fold (sha1_round accept_test_schedule) [10 ..< 20] (4139975633, 3000931299, 1773993634, 4235048205, 2182808279) =
     (2861215592, 313923794, 1703504852, 2345351361, 649532813)"
  by code_simp

lemma accept_test_rounds_3:
  "fold (sha1_round accept_test_schedule) [20 ..< 30] (2861215592, 313923794, 1703504852, 2345351361, 649532813) =
     (773204878, 1804889116, 4075289061, 3146222718, 847602953)"
  by code_simp

lemma accept_test_rounds_4:
  "fold (sha1_round accept_test_schedule) [30 ..< 40] (773204878, 1804889116, 4075289061, 3146222718, 847602953) =
     (3939490128, 1456260296, 3903525811, 2144229469, 3437136776)"
  by code_simp

lemma accept_test_rounds_5:
  "fold (sha1_round accept_test_schedule) [40 ..< 50] (3939490128, 1456260296, 3903525811, 2144229469, 3437136776) =
     (1082722570, 2908211071, 2541425601, 156430569, 4059309130)"
  by code_simp

lemma accept_test_rounds_6:
  "fold (sha1_round accept_test_schedule) [50 ..< 60] (1082722570, 2908211071, 2541425601, 156430569, 4059309130) =
     (4191131144, 271564194, 3929258649, 3534130994, 2327197869)"
  by code_simp

lemma accept_test_rounds_7:
  "fold (sha1_round accept_test_schedule) [60 ..< 70] (4191131144, 271564194, 3929258649, 3534130994, 2327197869) =
     (2916129458, 976999066, 3787187691, 3722019407, 1644124900)"
  by code_simp

lemma accept_test_rounds_8:
  "fold (sha1_round accept_test_schedule) [70 ..< 80] (2916129458, 976999066, 3787187691, 3722019407, 1644124900) =
     (2134583016, 4163249660, 2136508487, 1301170922, 3773745046)"
  by code_simp

lemma upt_0_80:
  "[0 ..< 80] = [0 ..< 10] @ [10 ..< 20] @ [20 ..< 30] @ [30 ..< 40] @ [40 ..< 50] @
     [50 ..< 60] @ [60 ..< 70] @ [70 ..< 80]"
  by code_simp

lemma accept_test_rounds:
  "fold (sha1_round accept_test_schedule) [0 ..< 80] sha1_init =
     (2134583016, 4163249660, 2136508487, 1301170922, 3773745046)"
  by (simp only: upt_0_80 fold_append comp_apply accept_test_rounds_1 accept_test_rounds_2
      accept_test_rounds_3 accept_test_rounds_4 accept_test_rounds_5 accept_test_rounds_6
      accept_test_rounds_7 accept_test_rounds_8)

lemma accept_test_block_hash:
  "sha1_block accept_test_block sha1_init =
     (3867167209, 3891515781, 403924293, 1572904800, 2764155270)"
proof -
  have "sha1_block accept_test_block (0x67452301, 0xEFCDAB89, 0x98BADCFE, 0x10325476, 0xC3D2E1F0) =
        (0x67452301 + 2134583016, 0xEFCDAB89 + 4163249660, 0x98BADCFE + 2136508487,
         0x10325476 + 1301170922, 0xC3D2E1F0 + 3773745046)"
    unfolding sha1_block_def accept_test_sched
    by (simp only: prod.case accept_test_rounds [unfolded sha1_init_def])
  also have "\<dots> = (3867167209, 3891515781, 403924293, 1572904800, 2764155270)"
    by simp
  finally show ?thesis by (simp only: sha1_init_def)
qed

lemma accept_test_chunks:
  "chunks (length accept_test_block div 64) 64 accept_test_block = [accept_test_block]"
  by code_simp

lemma accept_test_digest:
  "sha1 (bytes_of (''M/A='' @ keySuffixGUID)) =
     [230, 128, 73, 233, 231, 243, 209, 133, 24, 19, 101, 69, 93, 192, 159, 96, 164, 193, 169, 134]"
proof -
  have "sha1 (bytes_of (''M/A='' @ keySuffixGUID)) =
        be32_bytes 3867167209 @ be32_bytes 3891515781 @ be32_bytes 403924293 @
        be32_bytes 1572904800 @ be32_bytes 2764155270"
    by (simp only: sha1_def Let_def accept_test_pad accept_test_chunks fold.simps comp_apply
        id_apply accept_test_block_hash prod.case)
  also have "\<dots> =
        [230, 128, 73, 233, 231, 243, 209, 133, 24, 19, 101, 69, 93, 192, 159, 96, 164, 193, 169, 134]"
    by code_simp
  finally show ?thesis .
qed

lemma accept_test_base64:
  "base64_std [230, 128, 73, 233, 231, 243, 209, 133, 24, 19, 101, 69, 93, 192, 159, 96, 164, 193, 169, 134]
   = ''5oBJ6efz0YUYE2VFXcCfYKTBqYY=''"
  by (simp add: b64_def base64_alphabet_def)

text \<open>
  Claim C5. For every string \<open>k\<close>, \<^verbatim>\<open>MakeAcceptKey(k)\<close> is the standard base64 encoding of
  the SHA-1 digest of \<open>k\<close> followed by the GUID
  \<^verbatim>\<open>258EAFA5-E914-47DA-95CA-C5AB0DC85B11\<close>; and \<^verbatim>\<open>MakeAcceptKey("M/A=")\<close> is
  \<^verbatim>\<open>5oBJ6efz0YUYE2VFXcCfYKTBqYY=\<close>, by evaluating SHA-1 and base64 on that input.
\<close>

theorem MakeAcceptKey_value:
  "MakeAcceptKey k = base64_std (sha1 (bytes_of (k @ ''258EAFA5-E914-47DA-95CA-C5AB0DC85B11''))) \<and>
   MakeAcceptKey ''M/A='' = ''5oBJ6efz0YUYE2VFXcCfYKTBqYY=''"
proof
  show "MakeAcceptKey k = base64_std (sha1 (bytes_of (k @ ''258EAFA5-E914-47DA-95CA-C5AB0DC85B11'')))"
    by (simp add: MakeAcceptKey_def keySuffixGUID_def)
  show "MakeAcceptKey ''M/A='' = ''5oBJ6efz0YUYE2VFXcCfYKTBqYY=''"
    by (simp only: MakeAcceptKey_def accept_test_digest accept_test_base64)
qed

section \<open>Connection pool: results\<close>

lemma Add_simps:
  "idx (fst (Add s c)) = idx (fst s) + 1"
  "count (fst (Add s c)) = count (fst s) + 1"
  "p (fst (Add s c)) = (p (fst s))(idx (fst s) + 1 \<mapsto> c)"
  "ID (snd (Add s c) c) = idx (fst s) + 1"
  by (simp_all add: Add_def Let_def)

lemma Del_simps:
  "idx (fst (Del s c)) = idx (fst s)"
  "count (fst (Del s c)) = count (fst s) - 1"
  "p (fst (Del s c)) = (p (fst s))(ID (snd s c) := None)"
  by (simp_all add: Del_def Let_def)

lemma assigned_ids_above:
  "unat (idx (fst s)) + num_adds ops < 2 ^ 64 \<Longrightarrow>
   sorted_wrt (<) (assigned_ids ops s) \<and> (\<forall>x \<in> set (assigned_ids ops s). idx (fst s) < x)"
proof (induction ops arbitrary: s)
  case Nil
  then show ?case by simp
next
  case (Cons a ops)
  show ?case
  proof (cases a)
    case (OpAdd c)
    with Cons.prems have b: "unat (idx (fst s)) + 1 < 2 ^ 64" by simp
    have u: "unat (idx (fst s) + 1) = unat (idx (fst s)) + 1"
      using b by (simp add: unat_word_ariths)
    have lt: "idx (fst s) < idx (fst s) + 1"
      using u by (simp add: word_less_nat_alt)
    from Cons.prems OpAdd u
    have "unat (idx (fst (Add s c))) + num_adds ops < 2 ^ 64"
      by (simp add: Add_simps)
    from Cons.IH [OF this]
    have ih: "sorted_wrt (<) (assigned_ids ops (Add s c))"
      "\<forall>x \<in> set (assigned_ids ops (Add s c)). idx (fst s) + 1 < x"
      by (simp_all add: Add_simps)
    from ih lt show ?thesis
      using OpAdd by (auto simp: Add_simps)
  next
    case (OpDel c)
    with Cons.prems
    have "unat (idx (fst (Del s c))) + num_adds ops < 2 ^ 64"
      by (simp add: Del_simps)
    from Cons.IH [OF this] show ?thesis
      using OpDel by (simp add: Del_simps)
  qed
qed

lemma pool_inv_New: "pool_inv NewConnPool"
  by (simp add: pool_inv_def NewConnPool_def)

lemma pool_inv_Add:
  assumes inv: "pool_inv (fst s)" and b: "unat (idx (fst s)) + 1 < 2 ^ 64"
  shows "pool_inv (fst (Add s c))"
proof -
  let ?i = "idx (fst s)"
  have u: "unat (?i + 1) = unat ?i + 1"
    using b by (simp add: unat_word_ariths)
  have lt: "?i < ?i + 1"
    using u by (simp add: word_less_nat_alt)
  have fin: "finite (dom (p (fst s)))" and le: "\<forall>k \<in> dom (p (fst s)). k \<le> ?i"
    and cd: "card (dom (p (fst s))) \<le> unat ?i"
    and ct: "unat (count (fst s)) = card (dom (p (fst s)))"
    using inv by (simp_all add: pool_inv_def)
  have notin: "?i + 1 \<notin> dom (p (fst s))"
  proof
    assume "?i + 1 \<in> dom (p (fst s))"
    with le have "?i + 1 \<le> ?i" by blast
    with lt show False by simp
  qed
  have c1: "card (dom ((p (fst s))(?i + 1 \<mapsto> c))) = card (dom (p (fst s))) + 1"
    using fin notin by simp
  have "unat (count (fst s)) + 1 < 2 ^ 64" using ct cd b by simp
  then have c2: "unat (count (fst s) + 1) = unat (count (fst s)) + 1"
    by (simp add: unat_word_ariths)
  have le': "\<forall>k \<in> dom ((p (fst s))(?i + 1 \<mapsto> c)). k \<le> ?i + 1"
  proof
    fix k assume "k \<in> dom ((p (fst s))(?i + 1 \<mapsto> c))"
    then have "k = ?i + 1 \<or> k \<in> dom (p (fst s))" by auto
    then show "k \<le> ?i + 1"
    proof
      assume "k = ?i + 1" then show ?thesis by simp
    next
      assume "k \<in> dom (p (fst s))"
      with le have "k \<le> ?i" by blast
      with lt show ?thesis by simp
    qed
  qed
  show ?thesis
    unfolding pool_inv_def Add_simps
    using fin le' c1 c2 ct cd u by simp
qed

lemma pool_inv_Del:
  assumes inv: "pool_inv (fst s)" and pres: "p (fst s) (ID (snd s c)) \<noteq> None"
  shows "pool_inv (fst (Del s c))"
proof -
  let ?k = "ID (snd s c)"
  have fin: "finite (dom (p (fst s)))" and le: "\<forall>k \<in> dom (p (fst s)). k \<le> idx (fst s)"
    and cd: "card (dom (p (fst s))) \<le> unat (idx (fst s))"
    and ct: "unat (count (fst s)) = card (dom (p (fst s)))"
    using inv by (simp_all add: pool_inv_def)
  have mem: "?k \<in> dom (p (fst s))" using pres by auto
  then have pos: "0 < card (dom (p (fst s)))"
    using fin by (auto simp: card_gt_0_iff)
  have c1: "card (dom ((p (fst s))(?k := None))) = card (dom (p (fst s))) - 1"
    using fin mem by simp
  have "count (fst s) \<noteq> 0" using ct pos by (auto simp: unat_eq_0)
  then have c2: "unat (count (fst s) - 1) = unat (count (fst s)) - 1"
    by (simp add: unat_minus_one)
  show ?thesis
    unfolding pool_inv_def Del_simps
    using fin le c1 c2 ct cd by auto
qed

lemma pool_inv_run:
  "pool_inv (fst s) \<Longrightarrow> unat (idx (fst s)) + num_adds ops < 2 ^ 64 \<Longrightarrow>
   dels_present ops s \<Longrightarrow> pool_inv (fst (pool_run ops s))"
proof (induction ops arbitrary: s)
  case Nil
  then show ?case by simp
next
  case (Cons a ops)
  show ?case
  proof (cases a)
    case (OpAdd c)
    with Cons.prems have b: "unat (idx (fst s)) + 1 < 2 ^ 64" by simp
    then have u: "unat (idx (fst s) + 1) = unat (idx (fst s)) + 1"
      by (simp add: unat_word_ariths)
    have "pool_inv (fst (pool_run ops (Add s c)))"
      using Cons.prems OpAdd u pool_inv_Add [OF Cons.prems(1) b]
      by (intro Cons.IH) (simp_all add: Add_simps)
    then show ?thesis using OpAdd by simp
  next
    case (OpDel c)
    have "pool_inv (fst (pool_run ops (Del s c)))"
      using Cons.prems OpDel pool_inv_Del [of s c]
      by (intro Cons.IH) (simp_all add: Del_simps)
    then show ?thesis using OpDel by simp
  qed
qed

lemma num_adds_take: "num_adds (take n ops) \<le> num_adds ops"
proof (induction ops arbitrary: n)
  case Nil
  then show ?case by simp
next
  case (Cons a ops)
  then show ?case by (cases n; cases a) (auto intro: le_SucI)
qed

lemma dels_present_take: "dels_present ops s \<Longrightarrow> dels_present (take n ops) s"
proof (induction ops arbitrary: n s)
  case Nil
  then show ?case by simp
next
  case (Cons a ops)
  then show ?case by (cases n; cases a) auto
qed

text \<open>
  What the pool does keep. Starting from \<^verbatim>\<open>NewConnPool()\<close>, with fewer than \<open>2 ^ 64\<close>
  \<^verbatim>\<open>Add\<close>s (the counter is a \<^verbatim>\<open>uint64\<close>): the IDs assigned by \<^verbatim>\<open>Add\<close> are strictly
  increasing, pairwise distinct and nonzero, whatever the \<^verbatim>\<open>Del\<close>s do; and along a
  sequence in which no \<^verbatim>\<open>Del\<close> meets an ID that is absent from the map, \<^verbatim>\<open>Count()\<close>
  is the number of entries of the map after each operation.
\<close>

lemma ConnPool_count_and_ids:
  assumes "num_adds ops < 2 ^ 64"
  shows "sorted_wrt (<) (assigned_ids ops (NewConnPool, h)) \<and>
         distinct (assigned_ids ops (NewConnPool, h)) \<and>
         0 \<notin> set (assigned_ids ops (NewConnPool, h)) \<and>
         (dels_present ops (NewConnPool, h) \<longrightarrow>
            (\<forall>n \<le> length ops.
               unat (Count (fst (pool_run (take n ops) (NewConnPool, h)))) =
               card (dom (p (fst (pool_run (take n ops) (NewConnPool, h)))))))"
proof -
  have i0: "unat (idx (fst (NewConnPool, h))) + num_adds ops < 2 ^ 64"
    using assms by (simp add: NewConnPool_def)
  from assigned_ids_above [OF i0]
  have s: "sorted_wrt (<) (assigned_ids ops (NewConnPool, h))"
    and a: "\<forall>x \<in> set (assigned_ids ops (NewConnPool, h)). 0 < x"
    by (simp_all add: NewConnPool_def)
  have d: "distinct (assigned_ids ops (NewConnPool, h))"
    using s by (simp add: strict_sorted_iff)
  have z: "0 \<notin> set (assigned_ids ops (NewConnPool, h))"
    using a by auto
  have c: "unat (Count (fst (pool_run (take n ops) (NewConnPool, h)))) =
           card (dom (p (fst (pool_run (take n ops) (NewConnPool, h)))))"
    if dp: "dels_present ops (NewConnPool, h)" for n
  proof -
    have "unat (idx (fst (NewConnPool, h))) + num_adds (take n ops) < 2 ^ 64"
      using i0 num_adds_take [of n ops] by simp
    moreover have "pool_inv (fst (NewConnPool, h))"
      by (simp add: pool_inv_New)
    ultimately have "pool_inv (fst (pool_run (take n ops) (NewConnPool, h)))"
      using dels_present_take [OF dp] by (intro pool_inv_run)
    then show ?thesis by (simp add: pool_inv_def Count_def)
  qed
  from s d z c show ?thesis by blast
qed

text \<open>An instance: two \<^verbatim>\<open>Add\<close>s, then \<^verbatim>\<open>Del\<close> of the first connection.\<close>

lemma ConnPool_count_and_ids_instance:
  "num_adds [OpAdd 0, OpAdd 1, OpDel 0] < 2 ^ 64 \<and>
   dels_present [OpAdd 0, OpAdd 1, OpDel 0] (NewConnPool, fresh_store) \<and>
   assigned_ids [OpAdd 0, OpAdd 1, OpDel 0] (NewConnPool, fresh_store) = [1, 2] \<and>
   sorted_wrt (<) (assigned_ids [OpAdd 0, OpAdd 1, OpDel 0] (NewConnPool, fresh_store)) \<and>
   unat (Count (fst (pool_run [OpAdd 0, OpAdd 1, OpDel 0] (NewConnPool, fresh_store)))) =
   card (dom (p (fst (pool_run [OpAdd 0, OpAdd 1, OpDel 0] (NewConnPool, fresh_store)))))"
proof -
  have n: "num_adds [OpAdd 0, OpAdd 1, OpDel 0] < 2 ^ 64" by simp
  have dp: "dels_present [OpAdd 0, OpAdd 1, OpDel 0] (NewConnPool, fresh_store)"
    by (simp add: Add_def Del_def NewConnPool_def fresh_store_def Let_def)
  have ids: "assigned_ids [OpAdd 0, OpAdd 1, OpDel 0] (NewConnPool, fresh_store) = [1, 2]"
    by (simp add: Add_def Del_def NewConnPool_def fresh_store_def Let_def)
  note t = ConnPool_count_and_ids [OF n, of fresh_store]
  from t have srt: "sorted_wrt (<) (assigned_ids [OpAdd 0, OpAdd 1, OpDel 0] (NewConnPool, fresh_store))"
    by (rule conjunct1)
  from t dp have "\<forall>n \<le> length [OpAdd 0, OpAdd 1, OpDel 0].
      unat (Count (fst (pool_run (take n [OpAdd 0, OpAdd 1, OpDel 0]) (NewConnPool, fresh_store)))) =
      card (dom (p (fst (pool_run (take n [OpAdd 0, OpAdd 1, OpDel 0]) (NewConnPool, fresh_store)))))"
    by blast
  from this [rule_format, of 3]
  have cnt: "unat (Count (fst (pool_run [OpAdd 0, OpAdd 1, OpDel 0] (NewConnPool, fresh_store)))) =
      card (dom (p (fst (pool_run [OpAdd 0, OpAdd 1, OpDel 0] (NewConnPool, fresh_store)))))"
    by simp
  from n dp ids srt cnt show ?thesis by blast
qed

text \<open>
  Claim C8 at two inputs. \<^verbatim>\<open>Add\<close> of a connection followed by \<^verbatim>\<open>Del\<close> of it twice (as
  when \<^verbatim>\<open>Conn.Close\<close> runs twice on one connection): the second \<^verbatim>\<open>Del\<close> finds the ID
  absent, \<^verbatim>\<open>delete\<close> does nothing, \<^verbatim>\<open>count\<close> is decremented all the same and wraps to
  \<open>2 ^ 64 - 1\<close>, while the map has no entry. \<^verbatim>\<open>Del\<close> on a new pool, for a connection
  whose ID is 0, does the same. In both \<^verbatim>\<open>Count()\<close> is not the number of entries.
\<close>

theorem ConnPool_Del_absent_count_wraps:
  "unat (Count (fst (pool_run [OpAdd 0, OpDel 0, OpDel 0] (NewConnPool, fresh_store)))) =
     18446744073709551615 \<and>
   card (dom (p (fst (pool_run [OpAdd 0, OpDel 0, OpDel 0] (NewConnPool, fresh_store))))) = 0 \<and>
   unat (Count (fst (Del (NewConnPool, fresh_store) 0))) = 18446744073709551615 \<and>
   card (dom (p (fst (Del (NewConnPool, fresh_store) 0)))) = 0"
  by (simp add: Add_def Del_def NewConnPool_def fresh_store_def Count_def Let_def
      unsigned_minus_1_eq_mask mask_eq_exp_minus_1)
end
